theory Spec2Isabelle
  imports Complex_Main "HOL-Library.AList" "HOL-Library.Sublist"
begin

section \<open>The graph store (ResonanceDB)\<close>

text \<open>
  A row of the \<open>edges\<close> table. The table's primary key is the whole triple
  \<open>(source, target, type)\<close>.
\<close>

record edge =
  source :: string
  target :: string
  edge_type :: string

text \<open>
  A row of the \<open>nodes\<close> table, primary key \<open>node_id\<close>. Nullable columns are options.
  An embedding is the \<open>Float32Array\<close> view of the stored blob; its components are
  modelled as real numbers (rounding is not modelled).
\<close>

record node =
  node_id :: string
  node_type :: string
  title :: "string option"
  content :: "string option"
  domain :: string
  layer :: string
  embedding :: "real list option"
  hash :: "string option"
  meta :: "string option"

record db =
  nodes :: "node list"
  edges :: "edge list"

definition mk_edge :: "string \<Rightarrow> string \<Rightarrow> string \<Rightarrow> edge" where
  "mk_edge s t ty = \<lparr>source = s, target = t, edge_type = ty\<rparr>"

text \<open>\<open>ResonanceDB.insertEdge\<close>: \<open>INSERT OR IGNORE INTO edges\<close>.\<close>

definition insertEdge :: "db \<Rightarrow> string \<Rightarrow> string \<Rightarrow> string \<Rightarrow> db" where
  "insertEdge d s t ty =
     (if mk_edge s t ty \<in> set (edges d) then d
      else d\<lparr>edges := edges d @ [mk_edge s t ty]\<rparr>)"

section \<open>LouvainGate\<close>

record gate_result =
  allowed :: bool
  reason :: "string option"

text \<open>\<open>SELECT COUNT(*) FROM edges WHERE target = ? OR source = ?\<close>, compared with the threshold.\<close>

definition isSuperNode :: "db \<Rightarrow> string \<Rightarrow> nat \<Rightarrow> bool" where
  "isSuperNode d i threshold =
     (length (filter (\<lambda>e. target e = i \<or> source e = i) (edges d)) > threshold)"

text \<open>
  The self-join of \<open>sharesNeighbor\<close>: a pair of rows \<open>e1\<close>, \<open>e2\<close> of \<open>edges\<close> (possibly the
  same row) that satisfies the \<open>ON\<close> and the \<open>WHERE\<close> condition.
\<close>

definition join_cond :: "string \<Rightarrow> string \<Rightarrow> edge \<Rightarrow> edge \<Rightarrow> bool" where
  "join_cond a b e1 e2 \<longleftrightarrow>
     (target e1 = target e2 \<or> source e1 = source e2 \<or>
      target e1 = source e2 \<or> source e1 = target e2) \<and>
     (source e1 = a \<or> target e1 = a) \<and>
     (source e2 = b \<or> target e2 = b)"

definition sharesNeighbor :: "db \<Rightarrow> string \<Rightarrow> string \<Rightarrow> bool" where
  "sharesNeighbor d a b =
     list_ex (\<lambda>e1. list_ex (\<lambda>e2. join_cond a b e1 e2) (edges d)) (edges d)"

definition rejection_reason :: "string \<Rightarrow> string \<Rightarrow> string" where
  "rejection_reason s t =
     ''Rejected edge '' @ s @ '' -> '' @ t @ '' due to low modularity''"

definition check :: "db \<Rightarrow> string \<Rightarrow> string \<Rightarrow> nat \<Rightarrow> gate_result" where
  "check d s t threshold =
     (if isSuperNode d t threshold \<and> \<not> sharesNeighbor d s t
      then \<lparr>allowed = False, reason = Some (rejection_reason s t)\<rparr>
      else \<lparr>allowed = True, reason = None\<rparr>)"

text \<open>
  The rule as the gate documents it: a common neighbour \<open>n\<close>, that is one edge
  connecting \<open>a\<close> and \<open>n\<close> and another edge connecting \<open>b\<close> and \<open>n\<close>. An edge connects
  its two ends in either direction, so \<open>n\<close> is an end of \<open>e1\<close>.
\<close>

definition connects :: "edge \<Rightarrow> string \<Rightarrow> string \<Rightarrow> bool" where
  "connects e x y \<longleftrightarrow> (source e = x \<and> target e = y) \<or> (source e = y \<and> target e = x)"

definition common_neighbor :: "db \<Rightarrow> string \<Rightarrow> string \<Rightarrow> bool" where
  "common_neighbor d a b =
     list_ex (\<lambda>e1. list_ex (\<lambda>e2. e1 \<noteq> e2 \<and>
        list_ex (\<lambda>n. connects e1 a n \<and> connects e2 b n) [source e1, target e1])
        (edges d)) (edges d)"

definition incident_count :: "db \<Rightarrow> string \<Rightarrow> nat" where
  "incident_count d i = length (filter (\<lambda>e. source e = i \<or> target e = i) (edges d))"

text \<open>
  A hub \<open>T\<close> with 51 incident edges: one from \<open>S\<close> and one from each of 50 other nodes
  \<open>x\<close>, \<open>xx\<close>, \<open>xxx\<close>, ... No other edge.
\<close>

definition hub_db :: db where
  "hub_db =
     \<lparr>nodes = [],
      edges = mk_edge ''S'' ''T'' ''CITES''
              # map (\<lambda>k. mk_edge (CHR ''x'' # replicate k CHR ''x'') ''T'' ''CITES'') [0..<50]\<rparr>"

section \<open>PipelineValidator\<close>

record Baseline =
  bl_nodes :: int
  bl_edges :: int
  bl_vectors :: int

datatype coverage = All | Experience | NoCoverage

record Expectation =
  files_to_process :: "int option"
  min_nodes_added :: "int option"
  max_errors :: "int option"
  required_vector_coverage :: "coverage option"

datatype severity = Error | Warning

text \<open>A \<open>ValidationError\<close>; the message text, formatted from the counts, is left out.\<close>

record ValidationError =
  rule :: string
  sev :: severity

record ValidationReport =
  passed :: bool
  baseline :: Baseline
  results :: Baseline
  errors :: "ValidationError list"
  warnings :: "ValidationError list"

definition count_nodes :: "db \<Rightarrow> int" where
  "count_nodes d = int (length (nodes d))"

definition count_edges :: "db \<Rightarrow> int" where
  "count_edges d = int (length (edges d))"

text \<open>\<open>SELECT COUNT(*) FROM nodes WHERE embedding IS NOT NULL\<close>\<close>

definition count_vectors :: "db \<Rightarrow> int" where
  "count_vectors d = int (length (filter (\<lambda>n. embedding n \<noteq> None) (nodes d)))"

text \<open>\<open>SELECT COUNT(*) FROM nodes WHERE domain = ?\<close>\<close>

definition count_domain :: "db \<Rightarrow> string \<Rightarrow> int" where
  "count_domain d dm = int (length (filter (\<lambda>n. domain n = dm) (nodes d)))"

definition captureBaseline :: "db \<Rightarrow> Baseline" where
  "captureBaseline d =
     \<lparr>bl_nodes = count_nodes d, bl_edges = count_edges d, bl_vectors = count_vectors d\<rparr>"

definition has_node :: "db \<Rightarrow> string \<Rightarrow> bool" where
  "has_node d i = list_ex (\<lambda>n. node_id n = i) (nodes d)"

definition orphanedEdges :: "db \<Rightarrow> nat" where
  "orphanedEdges d =
     length (filter (\<lambda>e. \<not> has_node d (source e) \<or> \<not> has_node d (target e)) (edges d))"

text \<open>\<open>SELECT id, COUNT(*) FROM nodes GROUP BY id HAVING count > 1\<close>\<close>

definition duplicateNodes :: "db \<Rightarrow> string list" where
  "duplicateNodes d =
     filter (\<lambda>i. length (filter (\<lambda>n. node_id n = i) (nodes d)) > 1)
       (remdups (map node_id (nodes d)))"

definition check_min_nodes :: "Expectation \<Rightarrow> int \<Rightarrow> ValidationError list" where
  "check_min_nodes ex nodesAdded =
     (case min_nodes_added ex of
        Some m \<Rightarrow> if nodesAdded < m then [\<lparr>rule = ''min_nodes_added'', sev = Error\<rparr>] else []
      | None \<Rightarrow> [])"

text \<open>
  The vector coverage check. It yields the errors and the warnings it adds. In the
  \<open>experience\<close> branch the source counts the rows \<open>WHERE domain = 'resonance'\<close>.
\<close>

definition check_coverage ::
  "Expectation \<Rightarrow> db \<Rightarrow> ValidationError list \<times> ValidationError list" where
  "check_coverage ex d =
     (if required_vector_coverage ex = Some All then
        (if count_vectors d < count_nodes d
         then ([\<lparr>rule = ''vector_coverage'', sev = Error\<rparr>], []) else ([], []))
      else if required_vector_coverage ex = Some Experience then
        (if count_vectors d < count_domain d ''resonance''
         then ([], [\<lparr>rule = ''vector_coverage'', sev = Warning\<rparr>]) else ([], []))
      else ([], []))"

datatype validator_error = NoBaseline

text \<open>
  \<open>PipelineValidator.validate\<close>; the validator's fields \<open>baseline\<close> and \<open>expectations\<close> are
  the first two arguments. Without a baseline it throws.
\<close>

definition validate ::
  "Baseline option \<Rightarrow> Expectation \<Rightarrow> db \<Rightarrow> validator_error + ValidationReport" where
  "validate bl ex d =
     (case bl of
        None \<Rightarrow> Inl NoBaseline
      | Some b \<Rightarrow>
          let res = captureBaseline d;
              nodesAdded = bl_nodes res - bl_nodes b;
              errs = check_min_nodes ex nodesAdded @ fst (check_coverage ex d)
                @ (if orphanedEdges d > 0 then [\<lparr>rule = ''orphaned_edges'', sev = Error\<rparr>] else [])
                @ (if length (duplicateNodes d) > 0
                   then [\<lparr>rule = ''duplicate_nodes'', sev = Error\<rparr>] else []);
              warns = snd (check_coverage ex d)
          in Inr \<lparr>passed = (length errs = 0), baseline = b, results = res,
                  errors = errs, warnings = warns\<rparr>)"

definition blank_node :: "string \<Rightarrow> string \<Rightarrow> node" where
  "blank_node i dm =
     \<lparr>node_id = i, node_type = ''note'', title = None, content = None, domain = dm,
      layer = ''note'', embedding = None, hash = None, meta = None\<rparr>"

text \<open>One node of the experience domain, without an embedding.\<close>

definition uncovered_db :: db where
  "uncovered_db = \<lparr>nodes = [blank_node ''n1'' ''experience''], edges = []\<rparr>"

definition expect_experience :: Expectation where
  "expect_experience =
     \<lparr>files_to_process = None, min_nodes_added = None, max_errors = None,
      required_vector_coverage = Some Experience\<rparr>"

section \<open>Full-text search\<close>

text \<open>
  A row the FTS query returns, and the query itself: the SQL engine is outside the
  program, so the statement \<open>... WHERE nodes_fts MATCH ? ORDER BY rank LIMIT ?\<close> is a
  function that either fails (invalid FTS5 syntax, no FTS table) or returns rows.
\<close>

record fts_row =
  row_id :: string
  row_title :: "string option"
  row_snippet :: "string option"
  row_rank :: real

record fts_hit =
  hit_id :: string
  hit_title :: string
  hit_snippet :: string
  hit_rank :: real

datatype sql_error = SqlError string

type_synonym fts_engine = "string \<Rightarrow> int \<Rightarrow> sql_error + fts_row list"

text \<open>JavaScript's \<open>x || y\<close> on a nullable string: \<open>null\<close> and the empty string are falsy.\<close>

definition or_else :: "string option \<Rightarrow> string \<Rightarrow> string" where
  "or_else x y = (case x of None \<Rightarrow> y | Some s \<Rightarrow> if s = [] then y else s)"

definition fts_map_row :: "fts_row \<Rightarrow> fts_hit" where
  "fts_map_row r =
     \<lparr>hit_id = row_id r, hit_title = or_else (row_title r) (row_id r),
      hit_snippet = or_else (row_snippet r) [], hit_rank = row_rank r\<rparr>"

text \<open>The body of the \<open>try\<close> block of \<open>searchText\<close>: the query may throw.\<close>

definition searchText_try :: "fts_engine \<Rightarrow> string \<Rightarrow> int \<Rightarrow> sql_error + fts_hit list" where
  "searchText_try fts query limit =
     (case fts query limit of Inl e \<Rightarrow> Inl e | Inr rows \<Rightarrow> Inr (map fts_map_row rows))"

text \<open>\<open>searchText\<close>: the \<open>catch\<close> clause turns every error of the body into the empty list.\<close>

definition searchText :: "fts_engine \<Rightarrow> string \<Rightarrow> int \<Rightarrow> sql_error + fts_hit list" where
  "searchText fts query limit =
     (case searchText_try fts query limit of Inl e \<Rightarrow> Inr [] | Inr hits \<Rightarrow> Inr hits)"

definition failing_fts :: fts_engine where
  "failing_fts q l = Inl (SqlError ''fts5: syntax error'')"

definition empty_fts :: fts_engine where
  "empty_fts q l = Inr []"

section \<open>JavaScript numbers\<close>

text \<open>
  A JavaScript number is an IEEE 754 binary64 value: a finite number, an infinity or
  \<open>NaN\<close>. The sign of a zero is not kept: a negative zero reads as zero.
\<close>

datatype number = Fin real | PosInf | NegInf | NaN

section \<open>VectorCodec (FAFCAS)\<close>

text \<open>
  \<open>toFafcas\<close> on the components of the \<open>Float32Array\<close>, read as real numbers. The loop
  adds the squares from left to right; the blob is the byte view of the same buffer,
  four bytes a component.
\<close>

definition sum_squares :: "real list \<Rightarrow> real" where
  "sum_squares v = fold (\<lambda>val s. s + val * val) v 0"

definition magnitude :: "real list \<Rightarrow> real" where
  "magnitude v = sqrt (sum_squares v)"

definition toFafcas :: "real list \<Rightarrow> real list" where
  "toFafcas v =
     (if magnitude v > 1 / 1000000 then map (\<lambda>val. val / magnitude v) v else v)"



section \<open>Hybrid search (the \<open>search_documents\<close> tool)\<close>

text \<open>
  A hit of \<open>VectorEngine.search\<close>: the dot product of the query and the node, and the
  node's \<open>content\<close> column as it is stored, \<open>null\<close> for a node without content.
\<close>

record SearchResult =
  sr_id :: string
  sr_score :: real
  sr_content :: "string option"

record candidate =
  cand_id :: string
  score :: real
  preview :: string
  cand_source :: string

text \<open>
  The candidate \<open>Map\<close>: a JavaScript \<open>Map\<close> keeps its keys in insertion order and
  \<open>set\<close> on a present key keeps the key's place, as \<open>AList.update\<close> does.
\<close>

type_synonym candidates = "(string \<times> candidate) list"

text \<open>\<open>r.content.slice(0, 200).replace(/\n/g, " ")\<close>\<close>

definition preview_of :: "string \<Rightarrow> string" where
  "preview_of c = map (\<lambda>ch. if ch = CHR 0x0A then CHR '' '' else ch) (take 200 c)"

definition vector_candidate :: "SearchResult \<Rightarrow> string \<Rightarrow> candidate" where
  "vector_candidate r c =
     \<lparr>cand_id = sr_id r, score = sr_score r, preview = preview_of c,
      cand_source = ''vector''\<rparr>"

definition keyword_candidate :: "fts_hit \<Rightarrow> candidate" where
  "keyword_candidate r =
     \<lparr>cand_id = hit_id r, score = 5 / 10,
      preview = (if hit_snippet r \<noteq> [] then hit_snippet r else hit_title r),
      cand_source = ''keyword''\<rparr>"

definition boost :: "candidate \<Rightarrow> candidate" where
  "boost existing = existing\<lparr>score := score existing + 2 / 10, cand_source := ''hybrid''\<rparr>"

definition set_vector :: "SearchResult \<Rightarrow> string \<Rightarrow> candidates \<Rightarrow> candidates" where
  "set_vector r c m = AList.update (sr_id r) (vector_candidate r c) m"

definition merge_keyword :: "fts_hit \<Rightarrow> candidates \<Rightarrow> candidates" where
  "merge_keyword r m =
     (case map_of m (hit_id r) of
        Some existing \<Rightarrow> AList.update (hit_id r) (boost existing) m
      | None \<Rightarrow> AList.update (hit_id r) (keyword_candidate r) m)"

text \<open>\<open>Array.prototype.slice(0, n)\<close> for an integral \<open>n\<close>: a negative \<open>n\<close> counts from the end.\<close>

definition slice0 :: "'a list \<Rightarrow> int \<Rightarrow> 'a list" where
  "slice0 xs n = (if n < 0 then take (length xs - nat (- n)) xs else take (nat n) xs)"

text \<open>
  \<open>slice(0, e)\<close> for any number \<open>e\<close>: the end is first made integral
  (\<open>ToIntegerOrInfinity\<close>: \<open>NaN\<close> counts as 0, a fraction is cut off towards 0).
\<close>

definition trunc :: "real \<Rightarrow> int" where
  "trunc x = (if 0 \<le> x then \<lfloor>x\<rfloor> else \<lceil>x\<rceil>)"

definition slice_to :: "'a list \<Rightarrow> number \<Rightarrow> 'a list" where
  "slice_to xs e =
     (case e of Fin x \<Rightarrow> slice0 xs (trunc x) | PosInf \<Rightarrow> xs | NegInf \<Rightarrow> [] | NaN \<Rightarrow> [])"

text \<open>
  \<open>Number(args?.limit || 20)\<close>, for the argument the tool's schema declares (a number,
  optional): a missing limit, 0 and \<open>NaN\<close> are falsy and give 20.
\<close>

definition limit_of :: "number option \<Rightarrow> number" where
  "limit_of a =
     (case a of None \<Rightarrow> Fin 20 | Some x \<Rightarrow> if x = Fin 0 \<or> x = NaN then Fin 20 else x)"

text \<open>\<open>sort((a, b) => b.score - a.score)\<close>: a stable sort, highest score first.\<close>

definition sort_by_score :: "candidate list \<Rightarrow> candidate list" where
  "sort_by_score cs = sort_key (\<lambda>c. - score c) cs"

record search_response =
  hits :: "candidate list"
  search_errors :: "string list"
  isError :: bool

text \<open>
  The first \<open>try\<close> block. \<open>vres\<close> is what \<open>vectorEngine.search(query, limit)\<close> returned, or
  the message of what it threw. The loop over the rows is inside the same \<open>try\<close>:
  \<open>r.content.slice\<close> throws a \<open>TypeError\<close> at a row whose content is \<open>null\<close>, the loop
  ends there, and what it has put into the map before stays. (The text of the message
  is the engine's; this is the one of JavaScriptCore.)
\<close>

definition type_error_message :: string where
  "type_error_message = ''null is not an object (evaluating 'r.content.slice')''"

fun vector_loop :: "SearchResult list \<Rightarrow> candidates \<Rightarrow> candidates \<times> string option" where
  "vector_loop [] m = (m, None)"
| "vector_loop (r # rs) m =
     (case sr_content r of
        None \<Rightarrow> (m, Some type_error_message)
      | Some c \<Rightarrow> vector_loop rs (set_vector r c m))"

definition vector_pass :: "string + SearchResult list \<Rightarrow> candidates \<times> string option" where
  "vector_pass vres = (case vres of Inl msg \<Rightarrow> ([], Some msg) | Inr rs \<Rightarrow> vector_loop rs [])"

text \<open>
  The second \<open>try\<close> block; \<open>fres\<close> is what \<open>db.searchText(query, limit)\<close> returned or the
  message of what it threw.
\<close>

definition keyword_pass :: "sql_error + fts_hit list \<Rightarrow> candidates \<Rightarrow> candidates" where
  "keyword_pass fres m = (case fres of Inl e \<Rightarrow> m | Inr hs \<Rightarrow> fold merge_keyword hs m)"

text \<open>\<open>Array.from(candidates.values())\<close> after both blocks.\<close>

definition candidates_of :: "string + SearchResult list \<Rightarrow> sql_error + fts_hit list \<Rightarrow> candidate list" where
  "candidates_of vres fres = map snd (keyword_pass fres (fst (vector_pass vres)))"

text \<open>
  The handler of \<open>search_documents\<close> after both searches have run. The response prints
  each score with \<open>toFixed(3)\<close>; \<open>hits\<close> holds the scores before printing.
\<close>

definition search_documents ::
  "string + SearchResult list \<Rightarrow> sql_error + fts_hit list \<Rightarrow> number option \<Rightarrow> search_response" where
  "search_documents vres fres limit_arg =
     (let limit = limit_of limit_arg;
          errs = (case snd (vector_pass vres) of
                    Some msg \<Rightarrow> [''Vector Search Failed: '' @ msg] | None \<Rightarrow> [])
               @ (case fres of Inl (SqlError msg) \<Rightarrow> [''FTS Search Failed: '' @ msg] | Inr _ \<Rightarrow> []);
          rs = slice_to (sort_by_score (candidates_of vres fres)) limit
      in \<lparr>hits = rs, search_errors = errs, isError = (length rs = 0 \<and> length errs > 0)\<rparr>)"

text \<open>What a path contributed: nothing when it failed.\<close>

definition returned :: "'e + 'a list \<Rightarrow> 'a list" where
  "returned r = (case r of Inl e \<Rightarrow> [] | Inr xs \<Rightarrow> xs)"

text \<open>The rows of the vector path that reach the map: those before the first row
  without content.\<close>

definition vector_rows :: "string + SearchResult list \<Rightarrow> SearchResult list" where
  "vector_rows vres = takeWhile (\<lambda>r. sr_content r \<noteq> None) (returned vres)"

text \<open>What the loop puts into the map for a row that has content.\<close>

definition vector_entry :: "SearchResult \<Rightarrow> string \<times> candidate" where
  "vector_entry r =
     (sr_id r, vector_candidate r (case sr_content r of None \<Rightarrow> [] | Some c \<Rightarrow> c))"

definition descending :: "candidate list \<Rightarrow> bool" where
  "descending cs = sorted_wrt (\<lambda>a b. score a \<ge> score b) cs"

text \<open>Two vector hits and two keyword hits; \<open>B\<close> is returned by both paths.\<close>

definition demo_vector_hits :: "SearchResult list" where
  "demo_vector_hits =
     [\<lparr>sr_id = ''A'', sr_score = 9 / 10, sr_content = Some ''alpha''\<rparr>,
      \<lparr>sr_id = ''B'', sr_score = 4 / 10, sr_content = Some ''beta''\<rparr>]"

definition demo_keyword_hits :: "fts_hit list" where
  "demo_keyword_hits =
     [\<lparr>hit_id = ''B'', hit_title = ''beta'', hit_snippet = ''beta'', hit_rank = - 2\<rparr>,
      \<lparr>hit_id = ''C'', hit_title = ''gamma'', hit_snippet = [], hit_rank = - 1\<rparr>]"

section \<open>Strings\<close>

text \<open>
  Strings are lists of characters, one character a code unit below 256. \<open>js_space\<close> is
  the white space of \<open>String.prototype.trim\<close> and of \<open>\s\<close> among them: space, tab, line
  feed, vertical tab, form feed, carriage return and the no-break space U+00A0.
\<close>

definition js_space :: "char \<Rightarrow> bool" where
  "js_space c \<longleftrightarrow>
     c \<in> set [CHR '' '', CHR 0x09, CHR 0x0A, CHR 0x0B, CHR 0x0C, CHR 0x0D, CHR 0xA0]"

definition trim :: "string \<Rightarrow> string" where
  "trim s = rev (dropWhile js_space (rev (dropWhile js_space s)))"

text \<open>\<open>path.split("/").pop()\<close>: what follows the last slash.\<close>

definition basename :: "string \<Rightarrow> string" where
  "basename p = rev (takeWhile (\<lambda>c. c \<noteq> CHR ''/'') (rev p))"

text \<open>\<open>s.replace(pat, "")\<close> with a string pattern: the first occurrence is removed.\<close>

fun remove_first :: "string \<Rightarrow> string \<Rightarrow> string" where
  "remove_first pat [] = []"
| "remove_first pat (c # cs) =
     (if prefix pat (c # cs) then drop (length pat) (c # cs) else c # remove_first pat cs)"

definition in_range :: "char \<Rightarrow> char \<Rightarrow> char \<Rightarrow> bool" where
  "in_range lo hi c \<longleftrightarrow> (of_char lo :: nat) \<le> of_char c \<and> (of_char c :: nat) \<le> of_char hi"

text \<open>\<open>toLowerCase\<close> on the letters A to Z.\<close>

definition lower_char :: "char \<Rightarrow> char" where
  "lower_char c =
     (case map_of (zip ''ABCDEFGHIJKLMNOPQRSTUVWXYZ'' ''abcdefghijklmnopqrstuvwxyz'') c of
        None \<Rightarrow> c | Some l \<Rightarrow> l)"

definition toLowerCase :: "string \<Rightarrow> string" where
  "toLowerCase s = map lower_char s"

text \<open>The class \<open>[a-zA-Z0-9-]\<close> of a locus id, and \<open>[a-z0-9-]\<close> of a slug.\<close>

definition id_char :: "char \<Rightarrow> bool" where
  "id_char c \<longleftrightarrow> in_range CHR ''a'' CHR ''z'' c \<or> in_range CHR ''A'' CHR ''Z'' c
     \<or> in_range CHR ''0'' CHR ''9'' c \<or> c = CHR ''-''"

definition slug_char :: "char \<Rightarrow> bool" where
  "slug_char c \<longleftrightarrow> in_range CHR ''a'' CHR ''z'' c \<or> in_range CHR ''0'' CHR ''9'' c \<or> c = CHR ''-''"

text \<open>\<open>filename.replace(".md", "").toLowerCase().replace(/[^a-z0-9-]/g, "-")\<close>\<close>

definition file_slug :: "string \<Rightarrow> string" where
  "file_slug filename =
     map (\<lambda>c. if slug_char c then c else CHR ''-'') (toLowerCase (remove_first ''.md'' filename))"

section \<open>Inserting nodes\<close>

text \<open>The argument of \<open>insertNode\<close> (the interface \<open>Node\<close>): every field but two is optional.\<close>

record node_arg =
  n_id :: string
  n_type :: string
  n_label :: "string option"
  n_content :: "string option"
  n_domain :: "string option"
  n_layer :: "string option"
  n_embedding :: "real list option"
  n_hash :: "string option"
  n_meta :: "string option"

text \<open>\<open>x ? String(x) : null\<close> on an optional string: the empty string is falsy.\<close>

definition truthy :: "string option \<Rightarrow> string option" where
  "truthy x = (case x of None \<Rightarrow> None | Some s \<Rightarrow> if s = [] then None else Some s)"

definition node_row :: "node_arg \<Rightarrow> node" where
  "node_row n =
     \<lparr>node_id = n_id n, node_type = n_type n, title = truthy (n_label n),
      content = truthy (n_content n), domain = or_else (n_domain n) ''knowledge'',
      layer = or_else (n_layer n) ''experience'',
      embedding = map_option toFafcas (n_embedding n),
      hash = truthy (n_hash n), meta = n_meta n\<rparr>"

text \<open>\<open>INSERT OR REPLACE INTO nodes\<close>: a row with the same id is deleted first.\<close>

definition insertNode :: "db \<Rightarrow> node_arg \<Rightarrow> db" where
  "insertNode d n =
     d\<lparr>nodes := filter (\<lambda>r. node_id r \<noteq> n_id n) (nodes d) @ [node_row n]\<rparr>"

text \<open>\<open>getNodeHash\<close>: \<open>row ? row.hash : null\<close>.\<close>

definition getNodeHash :: "db \<Rightarrow> string \<Rightarrow> string option" where
  "getNodeHash d i =
     (case find (\<lambda>r. node_id r = i) (nodes d) of None \<Rightarrow> None | Some row \<Rightarrow> hash row)"

section \<open>EdgeWeaver\<close>

definition safeInsertEdge :: "db \<Rightarrow> string \<Rightarrow> string \<Rightarrow> string \<Rightarrow> db" where
  "safeInsertEdge d s t ty =
     (if allowed (check d s t 50) then insertEdge d s t ty else d)"

text \<open>
  The three scans of a weaver built over a lexicon. Each yields, in the order of the
  matches in the content, the target and the type of every edge that the method
  passes to \<open>safeInsertEdge\<close> (the regular expressions and the lexicon lookup are
  not modelled).
\<close>

record weaver =
  tag_targets :: "string \<Rightarrow> (string \<times> string) list"
  wikilink_targets :: "string \<Rightarrow> (string \<times> string) list"
  metadata_targets :: "string \<Rightarrow> (string \<times> string) list"

definition safeInsertAll :: "db \<Rightarrow> string \<Rightarrow> (string \<times> string) list \<Rightarrow> db" where
  "safeInsertAll d sourceId ts = fold (\<lambda>(t, ty) d'. safeInsertEdge d' sourceId t ty) ts d"

definition processTags :: "weaver \<Rightarrow> db \<Rightarrow> string \<Rightarrow> string \<Rightarrow> db" where
  "processTags w d sourceId c = safeInsertAll d sourceId (tag_targets w c)"

definition processWikiLinks :: "weaver \<Rightarrow> db \<Rightarrow> string \<Rightarrow> string \<Rightarrow> db" where
  "processWikiLinks w d sourceId c = safeInsertAll d sourceId (wikilink_targets w c)"

definition processMetadataTags :: "weaver \<Rightarrow> db \<Rightarrow> string \<Rightarrow> string \<Rightarrow> db" where
  "processMetadataTags w d sourceId c = safeInsertAll d sourceId (metadata_targets w c)"

definition weave :: "weaver \<Rightarrow> db \<Rightarrow> string \<Rightarrow> string \<Rightarrow> db" where
  "weave w d sourceNodeId c =
     processMetadataTags w (processWikiLinks w (processTags w d sourceNodeId c) sourceNodeId c)
       sourceNodeId c"

section \<open>Ingestor, phase 1: lexicon and directives\<close>




record relationship =
  rel_target :: string
  rel_type :: string

record cda_entry =
  entry_id :: string
  entry_title :: string
  entry_definition :: string
  entry_meta :: string
  validated_relationships :: "relationship list"

definition directive_node :: "cda_entry \<Rightarrow> node_arg" where
  "directive_node entry =
     \<lparr>n_id = entry_id entry, n_type = ''directive'', n_label = Some (entry_title entry),
      n_content = Some (entry_definition entry),
      n_domain = Some ''persona'', n_layer = Some ''directive'', n_embedding = None,
      n_hash = None, n_meta = Some (entry_meta entry)\<rparr>"

definition ingestRelationship :: "string \<Rightarrow> relationship \<Rightarrow> db \<Rightarrow> db" where
  "ingestRelationship eid rel d =
     (if allowed (check d eid (rel_target rel) 50)
      then insertEdge d eid (rel_target rel) (rel_type rel) else d)"

definition ingestEntry :: "cda_entry \<Rightarrow> db \<Rightarrow> db" where
  "ingestEntry entry d =
     fold (ingestRelationship (entry_id entry)) (validated_relationships entry)
       (insertNode d (directive_node entry))"

text \<open>The loop of \<open>ingestCDA\<close> over the entries of the enriched directive file.\<close>

definition ingestCDA :: "db \<Rightarrow> cda_entry list \<Rightarrow> db" where
  "ingestCDA d entries = fold ingestEntry entries d"

section \<open>SemanticWeaver\<close>

text \<open>\<open>dotProduct\<close>: the loop runs over \<open>a\<close>; a missing component of \<open>b\<close> counts as 0.\<close>

fun dotProduct :: "real list \<Rightarrow> real list \<Rightarrow> real" where
  "dotProduct [] b = 0"
| "dotProduct (x # xs) [] = 0"
| "dotProduct (x # xs) (y # ys) = x * y + dotProduct xs ys"

record similar =
  sim_id :: string
  sim_label :: string
  sim_score :: real

text \<open>\<open>findSimilar\<close>: every node with an embedding (of the domain, if one is given), scored
  by dot product, sorted by score (stable, highest first) and cut to \<open>limit\<close>.\<close>

definition similar_row :: "real list \<Rightarrow> string option \<Rightarrow> node \<Rightarrow> similar list" where
  "similar_row queryVec dm r =
     (case embedding r of
        None \<Rightarrow> []
      | Some vec \<Rightarrow>
          if (case truthy dm of None \<Rightarrow> True | Some x \<Rightarrow> domain r = x)
          then [\<lparr>sim_id = node_id r, sim_label = or_else (title r) (node_id r),
                 sim_score = dotProduct queryVec vec\<rparr>]
          else [])"

definition findSimilar :: "db \<Rightarrow> real list \<Rightarrow> int \<Rightarrow> string option \<Rightarrow> similar list" where
  "findSimilar d queryVec limit dm =
     slice0 (sort_key (\<lambda>m. - sim_score m) (concat (map (similar_row queryVec dm) (nodes d)))) limit"

text \<open>The query of the orphans: no edge from the node, none to it, an embedding, and a
  type other than \<open>root\<close> and \<open>domain\<close>.\<close>

definition orphans :: "db \<Rightarrow> node list" where
  "orphans d =
     filter (\<lambda>n. \<not> list_ex (\<lambda>e. source e = node_id n) (edges d)
                \<and> \<not> list_ex (\<lambda>e. target e = node_id n) (edges d)
                \<and> embedding n \<noteq> None
                \<and> node_type n \<noteq> ''root'' \<and> node_type n \<noteq> ''domain'') (nodes d)"

definition validMatches :: "db \<Rightarrow> string \<Rightarrow> real list \<Rightarrow> similar list" where
  "validMatches d orphan_id vec =
     filter (\<lambda>m. sim_score m > 85 / 100 \<and> sim_id m \<noteq> orphan_id)
       (findSimilar d vec 3 (Some ''experience''))"

text \<open>The body of the rescue loop: the edge goes straight to \<open>insertEdge\<close>. (The query
  returns no orphan without an embedding.)\<close>

definition rescue :: "node \<Rightarrow> db \<Rightarrow> db" where
  "rescue orphan d =
     (case embedding orphan of
        None \<Rightarrow> d
      | Some vec \<Rightarrow>
          (case validMatches d (node_id orphan) vec of
             [] \<Rightarrow> d
           | best # _ \<Rightarrow> insertEdge d (node_id orphan) (sim_id best) ''RELATED_TO''))"

text \<open>\<open>SemanticWeaver.weave\<close>: the orphans are read once, before the loop.\<close>

definition SemanticWeaver_weave :: "db \<Rightarrow> db" where
  "SemanticWeaver_weave d = fold rescue (orphans d) d"

section \<open>Ingestor, phase 2: files and boxes\<close>

text \<open>
  The services outside the program: the MD5 digest (as hexadecimal text), the embedder
  (the vector, or nothing when it yields \<open>null\<close>) and the tokenizer (its result as JSON
  text).
\<close>

record services =
  md5 :: "string \<Rightarrow> string"
  embed :: "string \<Rightarrow> real list option"
  extract_tokens :: "string \<Rightarrow> string"

text \<open>\<open>LocusLedger.hashContent\<close>\<close>

definition hashContent :: "services \<Rightarrow> string \<Rightarrow> string" where
  "hashContent sv text = md5 sv (trim text)"

text \<open>The store, and the texts handed to the embedder so far.\<close>

record ingest_state =
  store :: db
  embedded :: "string list"

text \<open>\<open>JSON.stringify\<close> of the metadata: the values are JSON text already (escaping is
  not modelled).\<close>

definition stringify :: "(string \<times> string) list \<Rightarrow> string" where
  "stringify kvs =
     ''{'' @ concat (map (\<lambda>(k, v). [CHR 0x22] @ k @ [CHR 0x22] @ '':'' @ v @ '','') kvs) @ ''}''"

definition quoted :: "string \<Rightarrow> string" where
  "quoted v = [CHR 0x22] @ v @ [CHR 0x22]"

definition box_meta :: "(string \<times> string) list \<Rightarrow> string \<Rightarrow> string \<Rightarrow> string" where
  "box_meta fm sourcePath tokens =
     stringify (AList.update ''semantic_tokens'' tokens
       (AList.update ''source'' (quoted sourcePath) (map (\<lambda>(k, v). (k, quoted v)) fm)))"

definition processBox ::
  "services \<Rightarrow> weaver \<Rightarrow> ingest_state \<Rightarrow> string \<Rightarrow> string \<Rightarrow> string \<Rightarrow>
     (string \<times> string) list \<Rightarrow> string \<Rightarrow> ingest_state" where
  "processBox sv w st i c ty fm sourcePath =
     (let tokens = extract_tokens sv c;
          currentHash = hashContent sv c;
          storedHash = getNodeHash (store st) i
      in if storedHash = Some currentHash then st
         else
           let emb = (if length c > 50 then embed sv c else None);
               calls = (if length c > 50 then embedded st @ [c] else embedded st);
               n = \<lparr>n_id = i, n_type = ty,
                     n_label = Some (or_else (map_of fm ''title'') (basename sourcePath)),
                     n_content = Some c, n_domain = Some ''experience'',
                     n_layer = Some ''note'', n_embedding = emb, n_hash = Some currentHash,
                     n_meta = Some (box_meta fm sourcePath tokens)\<rparr>
           in \<lparr>store = weave w (insertNode (store st) n) i c, embedded = calls\<rparr>)"

text \<open>The text before the first occurrence of a pattern, if it occurs.\<close>

fun before_sub :: "string \<Rightarrow> string \<Rightarrow> string option" where
  "before_sub pat [] = (if pat = [] then Some [] else None)"
| "before_sub pat (c # cs) =
     (if prefix pat (c # cs) then Some [] else map_option ((#) c) (before_sub pat cs))"

text \<open>\<open>s.split(sep)\<close> for a separator of one character.\<close>

fun split_on :: "char \<Rightarrow> string \<Rightarrow> string list" where
  "split_on sep [] = [[]]"
| "split_on sep (c # cs) =
     (if c = sep then [] # split_on sep cs
      else (case split_on sep cs of [] \<Rightarrow> [[c]] | x # xs \<Rightarrow> (c # x) # xs))"

text \<open>
  One line of \<open>parseFrontmatter\<close>: \<open>[key, ...vals] = line.split(":")\<close>, so the key is
  what precedes the first colon and \<open>vals.join(":")\<close> what follows it; \<open>vals\<close> is empty
  when the line has no colon.
\<close>

definition parseLine :: "string \<Rightarrow> (string \<times> string) list \<Rightarrow> (string \<times> string) list" where
  "parseLine line m =
     (let key = takeWhile (\<lambda>c. c \<noteq> CHR '':'') line;
          rest = dropWhile (\<lambda>c. c \<noteq> CHR '':'') line
      in if key \<noteq> [] \<and> rest \<noteq> [] then AList.update (trim key) (trim (tl rest)) m else m)"

definition parseFrontmatter :: "string \<Rightarrow> (string \<times> string) list" where
  "parseFrontmatter text = fold parseLine (split_on CHR 0x0A text) []"

text \<open>\<open>content.match(/^---\n([\s\S]*?)\n---/)\<close> and the parse of its group.\<close>

definition frontmatter :: "string \<Rightarrow> (string \<times> string) list" where
  "frontmatter c =
     (if prefix [CHR ''-'', CHR ''-'', CHR ''-'', CHR 0x0A] c then
        (case before_sub [CHR 0x0A, CHR ''-'', CHR ''-'', CHR ''-''] (drop 4 c) of
           None \<Rightarrow> []
         | Some g \<Rightarrow> parseFrontmatter g)
      else [])"

text \<open>
  The expression \<open>/<!-- locus:([a-zA-Z0-9-]+) -->\n([\s\S]*?)(?=<!-- locus:|$)/g\<close>.
  \<open>split_at_locus\<close> is the lazy group with its lookahead: the text up to the next
  \<open><!-- locus:\<close> or to the end, and what is left. \<open>match_box\<close> matches at the start
  of a text and gives both groups and the text after the match.
\<close>

definition locus_open :: string where
  "locus_open = ''<!-- locus:''"

definition locus_close :: string where
  "locus_close = [CHR '' '', CHR ''-'', CHR ''-'', CHR ''>'', CHR 0x0A]"

fun split_at_locus :: "string \<Rightarrow> string \<times> string" where
  "split_at_locus [] = ([], [])"
| "split_at_locus (c # cs) =
     (if prefix locus_open (c # cs) then ([], c # cs)
      else (case split_at_locus cs of (b, r) \<Rightarrow> (c # b, r)))"

definition match_box :: "string \<Rightarrow> (string \<times> string \<times> string) option" where
  "match_box s =
     (if prefix locus_open s then
        (let after = drop (length locus_open) s;
             ident = takeWhile id_char after;
             rest = dropWhile id_char after
         in if ident \<noteq> [] \<and> prefix locus_close rest
            then (case split_at_locus (drop (length locus_close) rest) of
                    (b, r) \<Rightarrow> Some (ident, b, r))
            else None)
      else None)"

lemma split_at_locus_length: "length (snd (split_at_locus s)) \<le> length s"
  by (induction s) (auto split: prod.splits)

lemma match_box_shorter: "match_box s = Some (i, b, r) \<Longrightarrow> length r < length s"
proof -
  assume m: "match_box s = Some (i, b, r)"
  let ?rest = "dropWhile id_char (drop (length locus_open) s)"
  from m have p: "prefix locus_open s" and c: "prefix locus_close ?rest"
    and r: "r = snd (split_at_locus (drop (length locus_close) ?rest))"
    by (auto simp: match_box_def Let_def split: if_splits prod.splits)
  from c have "length locus_close \<le> length ?rest" by (rule prefix_length_le)
  then have "length (drop (length locus_close) ?rest) < length ?rest"
    by (simp add: locus_close_def)
  moreover have "length ?rest \<le> length s"
    using length_dropWhile_le[of id_char "drop (length locus_open) s"] by simp
  ultimately show ?thesis
    using r split_at_locus_length[of "drop (length locus_close) ?rest"] by simp
qed

text \<open>The successive results of \<open>boxRegex.exec(content)\<close>: groups 1 and 2 of each match.\<close>

function exec_all :: "string \<Rightarrow> (string \<times> string) list" where
  "exec_all s =
     (if s = [] then []
      else (case match_box s of
              Some (i, b, r) \<Rightarrow> (i, b) # exec_all r
            | None \<Rightarrow> exec_all (tl s)))"
  by pat_completeness auto
termination
  by (relation "measure length") (auto dest: match_box_shorter)

declare exec_all.simps [simp del]

record file_entry =
  file_path :: string
  file_type :: string
  file_content :: string

text \<open>
  \<open>processFile\<close>. A match with an empty group is skipped (\<open>continue\<close>) and does not set
  \<open>foundBoxes\<close>; the result is the new state and the number of characters processed.
\<close>

definition box_matches :: "string \<Rightarrow> (string \<times> string) list" where
  "box_matches c = filter (\<lambda>(i, b). i \<noteq> [] \<and> b \<noteq> []) (exec_all c)"

definition processFile ::
  "services \<Rightarrow> weaver \<Rightarrow> ingest_state \<Rightarrow> file_entry \<Rightarrow> ingest_state \<times> nat" where
  "processFile sv w st f =
     (let c = file_content f;
          fm = frontmatter c;
          loop = fold (\<lambda>(i, b) (s, total).
                   (processBox sv w s i (trim b) (file_type f) fm (file_path f),
                    total + length (trim b))) (box_matches c) (st, 0);
          foundBoxes = (box_matches c \<noteq> [])
      in if \<not> foundBoxes then
           (let filename = (if basename (file_path f) = [] then ''unknown''
                            else basename (file_path f));
                i = file_slug filename
            in if length c > 10
               then (processBox sv w st i c (file_type f) fm (file_path f), length c)
               else (st, 0))
         else loop)"

text \<open>The loop of \<open>runExperience\<close> over the files to process.\<close>

definition processFiles ::
  "services \<Rightarrow> weaver \<Rightarrow> ingest_state \<Rightarrow> file_entry list \<Rightarrow> ingest_state \<times> nat" where
  "processFiles sv w st files =
     fold (\<lambda>f (s, totalChars). case processFile sv w s f of (s', n) \<Rightarrow> (s', totalChars + n))
       files (st, 0)"

section \<open>Properties of the store used in the statements\<close>



text \<open>
  A store reached from another by upserts of nodes and by insertions of edges that
  \<open>LouvainGate.check\<close> admitted in the state in which they were made.
\<close>

inductive admitted :: "db \<Rightarrow> db \<Rightarrow> bool" where
  same: "admitted d d"
| node: "admitted d d' \<Longrightarrow> admitted d (insertNode d' n)"
| edge: "admitted d d' \<Longrightarrow> allowed (check d' s t 50) \<Longrightarrow> admitted d (insertEdge d' s t ty)"

text \<open>The boxes of a file: the id and the content that \<open>processFile\<close> hands to \<open>processBox\<close>.\<close>

definition file_boxes :: "file_entry \<Rightarrow> (string \<times> string) list" where
  "file_boxes f =
     (let c = file_content f in
      if box_matches c \<noteq> [] then map (\<lambda>(i, b). (i, trim b)) (box_matches c)
      else if length c > 10
        then [(file_slug (if basename (file_path f) = [] then ''unknown''
                          else basename (file_path f)), c)]
        else [])"

text \<open>
  A marker \<open><!-- locus:ID -->\<close> with an id of the class \<open>[a-zA-Z0-9-]+\<close> at the start of a
  text, and somewhere in a text.
\<close>

definition marker_here :: "string \<Rightarrow> bool" where
  "marker_here s \<longleftrightarrow>
     prefix locus_open s
     \<and> takeWhile id_char (drop (length locus_open) s) \<noteq> []
     \<and> prefix '' -->'' (dropWhile id_char (drop (length locus_open) s))"

definition has_locus_marker :: "string \<Rightarrow> bool" where
  "has_locus_marker s = list_ex marker_here (suffixes s)"

section \<open>Sample inputs\<close>

definition empty_db :: db where
  "empty_db = \<lparr>nodes = [], edges = []\<rparr>"

definition empty_state :: ingest_state where
  "empty_state = \<lparr>store = empty_db, embedded = []\<rparr>"

text \<open>Stand-ins for the outside services: a digest that is not empty, a fixed vector.\<close>

definition demo_services :: services where
  "demo_services =
     \<lparr>md5 = (\<lambda>s. ''md5-of-'' @ s), embed = (\<lambda>s. Some [3, 4]), extract_tokens = (\<lambda>s. ''{}'')\<rparr>"

definition demo_weaver :: weaver where
  "demo_weaver =
     \<lparr>tag_targets = (\<lambda>c. [(''term-flow'', ''TAGGED_AS'')]), wikilink_targets = (\<lambda>c. []),
      metadata_targets = (\<lambda>c. [])\<rparr>"


definition tiny_file :: file_entry where
  "tiny_file = \<lparr>file_path = ''notes/a.md'', file_type = ''document'', file_content = ''tiny''\<rparr>"

definition plain_file :: file_entry where
  "plain_file =
     \<lparr>file_path = ''notes/My Note.md'', file_type = ''document'',
      file_content = ''A note without any marker.''\<rparr>"

definition embedded_node :: "string \<Rightarrow> node" where
  "embedded_node i = (blank_node i ''experience'')\<lparr>embedding := Some [1]\<rparr>"

text \<open>The hub \<open>T\<close> of \<open>hub_db\<close> with its 51 edges, and an orphan \<open>o\<close> with the same embedding.\<close>

definition semantic_db :: db where
  "semantic_db = hub_db\<lparr>nodes := [embedded_node ''o'', embedded_node ''T'']\<rparr>"

text \<open>The state after \<open>plain_file\<close> has been ingested once.\<close>

definition ingested_state :: ingest_state where
  "ingested_state = fst (processFile demo_services demo_weaver empty_state plain_file)"

text \<open>
  A directive \<open>o\<close> with a relationship to the hub \<open>T\<close> of \<open>hub_db\<close> and one to its
  neighbour \<open>S\<close>; and two files of the same name in two directories, one with a link
  to \<open>T\<close>, the other with a link to \<open>S\<close>, with a weaver whose lexicon knows both.
\<close>

definition hub_entry :: cda_entry where
  "hub_entry =
     \<lparr>entry_id = ''o'', entry_title = ''Orientation'', entry_definition = ''Orient first.'',
      entry_meta = ''{}'',
      validated_relationships =
        [\<lparr>rel_target = ''T'', rel_type = ''IMPLEMENTS''\<rparr>,
         \<lparr>rel_target = ''S'', rel_type = ''CITES''\<rparr>]\<rparr>"

definition twin_files :: "file_entry list" where
  "twin_files =
     [\<lparr>file_path = ''docs/o.md'', file_type = ''document'',
       file_content = ''See [[T]] for the hub.''\<rparr>,
      \<lparr>file_path = ''notes/o.md'', file_type = ''document'',
       file_content = ''See [[S]] for the source.''\<rparr>]"

definition twin_weaver :: weaver where
  "twin_weaver =
     \<lparr>tag_targets = (\<lambda>c. []),
      wikilink_targets = (\<lambda>c. if c = ''See [[T]] for the hub.'' then [(''T'', ''CITES'')]
                               else if c = ''See [[S]] for the source.'' then [(''S'', ''CITES'')]
                               else []),
      metadata_targets = (\<lambda>c. [])\<rparr>"

definition hub_state :: ingest_state where
  "hub_state = \<lparr>store = hub_db, embedded = []\<rparr>"

section \<open>BentoBoxer\<close>

text \<open>A node of the Markdown tree (the interface \<open>Node\<close> of the boxer).\<close>

datatype md_node =
  MdNode (node_kind: string) (depth: "nat option") (md_value: "string option")
    (children: "md_node list")

text \<open>
  The \<open>unified\<close> processor (remark-parse, remark-gfm, remark-stringify) is a library
  outside the program: \<open>parse\<close> gives the top-level children of the tree of a text,
  \<open>stringify\<close> the Markdown of a root with the given children. \<open>MAX_SIZE\<close> of the
  Seaman constants is a parameter as well, and so is the ledger as seen by the boxer:
  the id that \<open>getOrMintId\<close> holds or mints for a hash.
\<close>

record processor =
  parse :: "string \<Rightarrow> md_node list"
  stringify :: "md_node list \<Rightarrow> string"

record BentoBox =
  locusId :: string
  box_content :: string
  tokenCount :: nat
  isLeaf :: bool
  tags :: "string list option"

record boxer =
  proc :: processor
  max_size :: nat
  digest :: "string \<Rightarrow> string"
  getOrMintId :: "string \<Rightarrow> string"

text \<open>\<open>text.split(/\s+/).length\<close>: one more than the number of runs of white space.\<close>

fun space_runs :: "bool \<Rightarrow> string \<Rightarrow> nat" where
  "space_runs in_run [] = 0"
| "space_runs in_run (c # cs) =
     (if js_space c then (if in_run then 0 else 1) + space_runs True cs
      else space_runs False cs)"

definition countTokens :: "string \<Rightarrow> nat" where
  "countTokens text = space_runs False text + 1"

definition createBox :: "boxer \<Rightarrow> string \<Rightarrow> nat \<Rightarrow> BentoBox" where
  "createBox bx c n =
     \<lparr>locusId = getOrMintId bx (digest bx (trim c)), box_content = c, tokenCount = n,
      isLeaf = True, tags = None\<rparr>"

definition is_break :: "md_node \<Rightarrow> bool" where
  "is_break n \<longleftrightarrow> node_kind n = ''thematicBreak''"

text \<open>\<open>nodes.findIndex((n) => n.type === "thematicBreak")\<close>, when it is not \<open>-1\<close>.\<close>

definition hrIndex :: "md_node list \<Rightarrow> nat option" where
  "hrIndex ns =
     (if list_ex is_break ns then Some (length (takeWhile (\<lambda>n. \<not> is_break n) ns)) else None)"

lemma hrIndex_less: "hrIndex ns = Some k \<Longrightarrow> k < length ns"
proof -
  assume "hrIndex ns = Some k"
  then have e: "list_ex is_break ns" and k: "k = length (takeWhile (\<lambda>n. \<not> is_break n) ns)"
    by (auto simp: hrIndex_def split: if_splits)
  from e have "takeWhile (\<lambda>n. \<not> is_break n) ns \<noteq> ns"
    by (auto simp: list_ex_iff takeWhile_eq_all_conv)
  then have "length (takeWhile (\<lambda>n. \<not> is_break n) ns) \<noteq> length ns"
    by (metis takeWhile_eq_take take_all_iff order_refl)
  with k show ?thesis
    using length_takeWhile_le[of "\<lambda>n. \<not> is_break n" ns] by simp
qed

text \<open>\<open>packageContent\<close>: one box if the group fits, else the fracture.\<close>

function packageContent :: "boxer \<Rightarrow> md_node list \<Rightarrow> BentoBox list" where
  "packageContent bx ns =
     (let c = trim (stringify (proc bx) ns);
          n = countTokens c
      in if n \<le> max_size bx then [createBox bx c n]
         else (case hrIndex ns of
                 Some k \<Rightarrow> packageContent bx (take k ns) @ packageContent bx (drop (k + 1) ns)
               | None \<Rightarrow>
                   if length ns > 1
                   then packageContent bx (take (length ns div 2) ns)
                        @ packageContent bx (drop (length ns div 2) ns)
                   else [createBox bx c n]))"
  by pat_completeness auto
termination
  by (relation "measure (\<lambda>(bx, ns). length ns)") (auto dest: hrIndex_less)

declare packageContent.simps [simp del]

text \<open>A heading of depth 1 to 4 opens a new group.\<close>

definition splits_here :: "md_node \<Rightarrow> bool" where
  "splits_here n \<longleftrightarrow>
     node_kind n = ''heading'' \<and> (case depth n of None \<Rightarrow> False | Some k \<Rightarrow> k \<noteq> 0 \<and> k \<le> 4)"

text \<open>The body of the loop of \<open>process\<close> over the children: the boxes so far and
  \<open>currentNodes\<close>.\<close>

definition process_step ::
  "boxer \<Rightarrow> md_node \<Rightarrow> BentoBox list \<times> md_node list \<Rightarrow> BentoBox list \<times> md_node list" where
  "process_step bx n acc =
     (case acc of (boxes, currentNodes) \<Rightarrow>
        if splits_here n then
          (if length currentNodes > 0 then (boxes @ packageContent bx currentNodes, [n])
           else (boxes, [n]))
        else (boxes, currentNodes @ [n]))"

definition process :: "boxer \<Rightarrow> string \<Rightarrow> BentoBox list" where
  "process bx text =
     (if trim text = [] then []
      else (case fold (process_step bx) (parse (proc bx) text) ([], []) of
              (boxes, currentNodes) \<Rightarrow>
                if length currentNodes > 0 then boxes @ packageContent bx currentNodes
                else boxes))"

section \<open>The commands \<open>box\<close> and \<open>audit\<close>\<close>

fun join :: "string \<Rightarrow> string list \<Rightarrow> string" where
  "join sep [] = []"
| "join sep [x] = x"
| "join sep (x # y # ys) = x @ sep @ join sep (y # ys)"

definition assembleBox :: "BentoBox \<Rightarrow> string" where
  "assembleBox b =
     (let header = ''<!-- locus:'' @ locusId b @ '' -->'';
          header' = (case tags b of
                       None \<Rightarrow> header
                     | Some ts \<Rightarrow> if length ts > 0
                         then header @ [CHR 0x0A] @ ''<!-- tags: '' @ join '', '' ts @ '' -->''
                         else header)
      in header' @ [CHR 0x0A] @ box_content b)"

text \<open>The output of \<open>box\<close> without \<open>--tag\<close>.\<close>

definition boxed_text :: "boxer \<Rightarrow> string \<Rightarrow> string" where
  "boxed_text bx text = join [CHR 0x0A, CHR 0x0A] (map assembleBox (process bx text))"

text \<open>
  \<open>.*? -->\<close> after the opening of a comment: the text after the first \<open> -->\<close> that no
  line terminator precedes, if there is one.
\<close>

fun lazy_close :: "string \<Rightarrow> string option" where
  "lazy_close [] = None"
| "lazy_close (c # cs) =
     (if prefix '' -->'' (c # cs) then Some (drop 4 (c # cs))
      else if c = CHR 0x0A \<or> c = CHR 0x0D then None
      else lazy_close cs)"

lemma lazy_close_shorter: "lazy_close s = Some r \<Longrightarrow> length r < length s"
  by (induction s) (auto split: if_splits)

text \<open>\<open>s.replace(/OPEN.*? -->/g, "")\<close> for an opening \<open>OPEN\<close>.\<close>

function strip_comments :: "string \<Rightarrow> string \<Rightarrow> string" where
  "strip_comments opn s =
     (if s = [] then []
      else if prefix opn s then
        (case lazy_close (drop (length opn) s) of
           Some r \<Rightarrow> strip_comments opn r
         | None \<Rightarrow> hd s # strip_comments opn (tl s))
      else hd s # strip_comments opn (tl s))"
  by pat_completeness auto
termination
proof (relation "measure (\<lambda>(opn, s). length s)")
  show "wf (measure (\<lambda>(opn, s). length s))" by simp
next
  fix opn s :: string and r
  assume "lazy_close (drop (length opn) s) = Some r"
  then have "length r < length (drop (length opn) s)" by (rule lazy_close_shorter)
  then show "((opn, r), (opn, s)) \<in> measure (\<lambda>(opn, s). length s)" by simp
next
  fix opn s :: string
  assume "s \<noteq> []"
  then show "((opn, tl s), (opn, s)) \<in> measure (\<lambda>(opn, s). length s)" by simp
next
  fix opn s :: string
  assume "s \<noteq> []"
  then show "((opn, tl s), (opn, s)) \<in> measure (\<lambda>(opn, s). length s)" by simp
qed

declare strip_comments.simps [simp del]

text \<open>\<open>str.replace(/\s+/g, " ")\<close>\<close>

fun collapse :: "bool \<Rightarrow> string \<Rightarrow> string" where
  "collapse in_run [] = []"
| "collapse in_run (c # cs) =
     (if js_space c then (if in_run then collapse True cs else CHR '' '' # collapse True cs)
      else c # collapse False cs)"

definition normalize :: "string \<Rightarrow> string" where
  "normalize str = collapse False str"

text \<open>The comparison of \<open>runAuditCommand\<close> on the texts of the two files.\<close>

definition audit_passes :: "string \<Rightarrow> string \<Rightarrow> bool" where
  "audit_passes sourceFile boxedFile =
     (let sourceText = trim sourceFile;
          boxedText = trim boxedFile;
          strippedBoxed = trim (strip_comments ''<!-- tags:''
                                 (strip_comments ''<!-- locus:'' boxedText))
      in normalize sourceText = normalize strippedBoxed)"

section \<open>A small processor for sample documents\<close>

text \<open>
  A stand-in for the Markdown processor on documents made of paragraphs, ATX headings
  and thematic breaks \<open>***\<close>, separated by blank lines: a block is a run of
  non-empty lines, a node keeps the text of its block, and the Markdown of a list of
  nodes is their texts joined by blank lines, with a final newline.
\<close>

fun para_blocks :: "string list \<Rightarrow> string list \<Rightarrow> string list" where
  "para_blocks cur [] = (if cur = [] then [] else [join [CHR 0x0A] cur])"
| "para_blocks cur (l # ls) =
     (if l = [] then (if cur = [] then para_blocks [] ls
                      else join [CHR 0x0A] cur # para_blocks [] ls)
      else para_blocks (cur @ [l]) ls)"

definition toy_node :: "string \<Rightarrow> md_node" where
  "toy_node b =
     (let hashes = length (takeWhile (\<lambda>c. c = CHR ''#'') b) in
      if b = ''***'' then MdNode ''thematicBreak'' None None []
      else if 1 \<le> hashes \<and> hashes \<le> 6 \<and> prefix '' '' (drop hashes b)
        then MdNode ''heading'' (Some hashes) (Some b) []
        else MdNode ''paragraph'' None (Some b) [])"

definition toy_parse :: "string \<Rightarrow> md_node list" where
  "toy_parse text = map toy_node (para_blocks [] (split_on CHR 0x0A text))"

definition toy_source :: "md_node \<Rightarrow> string" where
  "toy_source n = (if is_break n then ''***'' else (case md_value n of None \<Rightarrow> [] | Some v \<Rightarrow> v))"

definition toy_stringify :: "md_node list \<Rightarrow> string" where
  "toy_stringify ns = join [CHR 0x0A, CHR 0x0A] (map toy_source ns) @ [CHR 0x0A]"

definition toy_boxer :: "nat \<Rightarrow> boxer" where
  "toy_boxer m =
     \<lparr>proc = \<lparr>parse = toy_parse, stringify = toy_stringify\<rparr>, max_size = m,
      digest = (\<lambda>s. ''md5-of-'' @ s), getOrMintId = (\<lambda>h. ''0000'')\<rparr>"

text \<open>A paragraph of \<open>n + 1\<close> words, a thematic break and a paragraph of one word.\<close>

definition many_words :: "nat \<Rightarrow> string" where
  "many_words n = concat (replicate n ''a '') @ ''a''"

definition broken_text :: "nat \<Rightarrow> string" where
  "broken_text n = many_words n @ [CHR 0x0A, CHR 0x0A] @ ''***'' @ [CHR 0x0A, CHR 0x0A] @ ''b''"

section \<open>The groups of blocks behind the boxes\<close>

text \<open>
  The lists of nodes of which \<open>packageContent\<close> makes one box each: the same fracture,
  giving the nodes instead of the boxes.
\<close>

function fracture :: "boxer \<Rightarrow> md_node list \<Rightarrow> md_node list list" where
  "fracture bx ns =
     (if countTokens (trim (stringify (proc bx) ns)) \<le> max_size bx then [ns]
      else (case hrIndex ns of
              Some k \<Rightarrow> fracture bx (take k ns) @ fracture bx (drop (k + 1) ns)
            | None \<Rightarrow>
                if length ns > 1
                then fracture bx (take (length ns div 2) ns)
                     @ fracture bx (drop (length ns div 2) ns)
                else [ns]))"
  by pat_completeness auto
termination
  by (relation "measure (\<lambda>(bx, ns). length ns)") (auto dest: hrIndex_less)

declare fracture.simps [simp del]

text \<open>The groups that the loop of \<open>process\<close> flushes: a new one at each heading of depth
  1 to 4.\<close>

definition group_step ::
  "md_node \<Rightarrow> md_node list list \<times> md_node list \<Rightarrow> md_node list list \<times> md_node list" where
  "group_step n acc =
     (case acc of (groups, cur) \<Rightarrow>
        if splits_here n then (if cur \<noteq> [] then (groups @ [cur], [n]) else (groups, [n]))
        else (groups, cur @ [n]))"

definition sections :: "md_node list \<Rightarrow> md_node list list" where
  "sections ns =
     (case fold group_step ns ([], []) of
        (groups, cur) \<Rightarrow> if cur \<noteq> [] then groups @ [cur] else groups)"

definition box_groups :: "boxer \<Rightarrow> md_node list \<Rightarrow> md_node list list" where
  "box_groups bx ns = concat (map (fracture bx) (sections ns))"

definition not_break :: "md_node \<Rightarrow> bool" where
  "not_break n \<longleftrightarrow> \<not> is_break n"

section \<open>LouvainGate: the gate on a hub already linked to the source\<close>

lemma hub_edges:
  "e \<in> set (edges hub_db) \<Longrightarrow>
     target e = ''T'' \<and> (source e = ''S'' \<or> hd (source e) = CHR ''x'')"
  by (auto simp: hub_db_def mk_edge_def)

lemma hub_without_o:
  "e \<in> set (edges hub_db) \<Longrightarrow> source e \<noteq> ''o'' \<and> target e \<noteq> ''o''"
proof -
  assume "e \<in> set (edges hub_db)"
  from hub_edges[OF this] have t: "target e = ''T''"
    and s: "source e = ''S'' \<or> hd (source e) = CHR ''x''" by simp_all
  from t have "target e \<noteq> ''o''" by simp
  moreover from s have "source e \<noteq> ''o''"
  proof
    assume "source e = ''S''" then show ?thesis by simp
  next
    assume h: "hd (source e) = CHR ''x''"
    show ?thesis
    proof
      assume "source e = ''o''"
      with h show False by simp
    qed
  qed
  ultimately show ?thesis by simp
qed

lemma hub_first: "mk_edge ''S'' ''T'' ''CITES'' \<in> set (edges hub_db)"
  by (simp add: hub_db_def)

lemma hub_length: "length (edges hub_db) = 51"
  by (simp add: hub_db_def)

lemma hub_count: "incident_count hub_db ''T'' = 51"
proof -
  have "filter (\<lambda>e. source e = ''T'' \<or> target e = ''T'') (edges hub_db) = edges hub_db"
    using hub_edges by (intro filter_True) blast
  then show ?thesis by (simp add: incident_count_def hub_length)
qed

lemma hub_super: "isSuperNode hub_db ''T'' 50"
proof -
  have "filter (\<lambda>e. target e = ''T'' \<or> source e = ''T'') (edges hub_db) = edges hub_db"
    using hub_edges by (intro filter_True) blast
  then show ?thesis by (simp add: isSuperNode_def hub_length)
qed

lemma hub_shares: "sharesNeighbor hub_db ''S'' ''T''"
  unfolding sharesNeighbor_def list_ex_iff
  using hub_first
  by (intro bexI[of _ "mk_edge ''S'' ''T'' ''CITES''"]) (auto simp: join_cond_def mk_edge_def)

lemma hub_source_not_T: "e \<in> set (edges hub_db) \<Longrightarrow> source e \<noteq> ''T''"
proof -
  assume "e \<in> set (edges hub_db)"
  from hub_edges[OF this] have s: "source e = ''S'' \<or> hd (source e) = CHR ''x''" by simp
  then show ?thesis
  proof
    assume "source e = ''S''" then show ?thesis by simp
  next
    assume h: "hd (source e) = CHR ''x''"
    show ?thesis
    proof
      assume "source e = ''T''"
      with h show False by simp
    qed
  qed
qed

lemma hub_no_common: "\<not> common_neighbor hub_db ''S'' ''T''"
proof -
  have "\<not> (connects e1 ''S'' n \<and> connects e2 ''T'' n)"
    if e1: "e1 \<in> set (edges hub_db)" and e2: "e2 \<in> set (edges hub_db)" for e1 e2 n
  proof
    assume c: "connects e1 ''S'' n \<and> connects e2 ''T'' n"
    from hub_edges[OF e1] have t1: "target e1 = ''T''" by simp
    from hub_edges[OF e2] have t2: "target e2 = ''T''" by simp
    from c t1 have n: "n = ''T''" by (simp add: connects_def)
    with c t2 have "source e2 = ''T''" by (simp add: connects_def)
    with hub_source_not_T[OF e2] show False by simp
  qed
  then show ?thesis
    unfolding common_neighbor_def list_ex_iff by blast
qed

lemma isSuperNode_incident: "isSuperNode d t threshold \<longleftrightarrow> threshold < incident_count d t"
proof -
  have "(\<lambda>e::edge. target e = t \<or> source e = t) = (\<lambda>e. source e = t \<or> target e = t)"
    by auto
  then show ?thesis by (simp add: isSuperNode_def incident_count_def)
qed

text \<open>
  A target that is not a super-node is admitted whatever the source is (the second
  half of C5, property P7).
\<close>

lemma check_small_target:
  "incident_count d t \<le> threshold \<Longrightarrow> allowed (check d s t threshold)"
  by (simp add: check_def isSuperNode_incident)

text \<open>
  What \<open>sharesNeighbor\<close> computes: a common neighbour, or one edge that already joins
  the two nodes.
\<close>

lemma allowed_iff:
  "allowed (check d s t threshold) \<longleftrightarrow> \<not> isSuperNode d t threshold \<or> sharesNeighbor d s t"
  by (simp add: check_def)

text \<open>
  C5. \<open>check\<close> is claimed to reject exactly when the target has more than \<open>threshold\<close>
  incident edges and no node \<open>n\<close> has one edge to the source and another edge to the
  target. In \<open>hub_db\<close> the target \<open>T\<close> has 51 incident edges, one of them from \<open>S\<close>, whose
  only neighbour is \<open>T\<close>: \<open>S\<close> and \<open>T\<close> have no common neighbour. Yet the join of
  \<open>sharesNeighbor\<close> pairs the edge \<open>S \<rightarrow> T\<close> with itself (or with any other edge at \<open>T\<close>),
  and \<open>check\<close> admits a further edge from \<open>S\<close> to \<open>T\<close>.
\<close>

theorem check_admits_direct_edge:
  "allowed (check hub_db ''S'' ''T'' 50) \<and> incident_count hub_db ''T'' = 51
     \<and> \<not> common_neighbor hub_db ''S'' ''T''"
  using hub_shares hub_count hub_no_common by (simp add: check_def)

section \<open>PipelineValidator: vector coverage\<close>

lemma coverage_all:
  "required_vector_coverage ex = Some All \<Longrightarrow>
     fst (check_coverage ex d) \<noteq> [] \<longleftrightarrow> count_vectors d < count_nodes d"
  by (simp add: check_coverage_def)

lemma coverage_experience:
  "required_vector_coverage ex = Some Experience \<Longrightarrow>
     snd (check_coverage ex d) \<noteq> [] \<longleftrightarrow> count_vectors d < count_domain d ''resonance''"
  by (simp add: check_coverage_def)

text \<open>
  C8. With the expectation \<open>experience\<close>, \<open>validate\<close> is claimed to warn exactly when
  there are fewer vectors than nodes of the domain \<open>experience\<close>. On a store with one
  node of that domain and no vector the report has no warning: the source counts the
  nodes of the domain \<open>resonance\<close>.
\<close>

theorem validate_experience_no_warning:
  "validate (Some (captureBaseline uncovered_db)) expect_experience uncovered_db =
     Inr \<lparr>passed = True, baseline = captureBaseline uncovered_db,
          results = captureBaseline uncovered_db, errors = [], warnings = []\<rparr>
   \<and> count_vectors uncovered_db < count_domain uncovered_db ''experience''"
  by (simp add: validate_def check_coverage_def check_min_nodes_def expect_experience_def
      uncovered_db_def count_vectors_def count_domain_def blank_node_def Let_def
      orphanedEdges_def duplicateNodes_def)

section \<open>Full-text search never throws\<close>

text \<open>
  C10. \<open>searchText\<close> returns a list for every query and every behaviour of the FTS
  engine: the rows mapped when the query succeeds, the empty list when it fails, which
  is what it returns for a query without matches.
\<close>

theorem searchText_never_throws:
  "searchText fts q l = Inr (case fts q l of Inl e \<Rightarrow> [] | Inr rows \<Rightarrow> map fts_map_row rows)
   \<and> (isl (fts q l) \<longrightarrow> searchText fts q l = searchText empty_fts q l)"
  by (cases "fts q l") (simp_all add: searchText_def searchText_try_def empty_fts_def)

theorem searchText_never_throws_witness:
  "isl (failing_fts ''a AND'' 10) \<and> searchText failing_fts ''a AND'' 10 = Inr []
   \<and> searchText failing_fts ''a AND'' 10 = searchText empty_fts ''a AND'' 10"
  using searchText_never_throws [of failing_fts "''a AND''" 10]
  by (auto simp add: failing_fts_def)

section \<open>FAFCAS encoding\<close>








section \<open>Hybrid search: score fusion\<close>

lemma update_fresh: "k \<notin> fst ` set m \<Longrightarrow> AList.update k v m = m @ [(k, v)]"
  by (induction m) auto

lemma map_other_keys:
  "k \<notin> fst ` set m \<Longrightarrow> map (\<lambda>(k', c). (k', if k' = k then v else c)) m = m"
  by (induction m) auto

lemma update_present:
  "distinct (map fst m) \<Longrightarrow> k \<in> fst ` set m \<Longrightarrow>
     AList.update k v m = map (\<lambda>(k', c). (k', if k' = k then v else c)) m"
  by (induction m) (auto simp: map_other_keys)

lemma vector_loop_rows:
  assumes "distinct (map sr_id (takeWhile (\<lambda>r. sr_content r \<noteq> None) rs))"
    and "sr_id ` set (takeWhile (\<lambda>r. sr_content r \<noteq> None) rs) \<inter> fst ` set m = {}"
  shows "fst (vector_loop rs m) = m @ map vector_entry (takeWhile (\<lambda>r. sr_content r \<noteq> None) rs)"
  using assms
proof (induction rs arbitrary: m)
  case Nil
  then show ?case by simp
next
  case (Cons r rs)
  show ?case
  proof (cases "sr_content r")
    case None
    then show ?thesis by simp
  next
    case (Some c)
    let ?rows = "takeWhile (\<lambda>r. sr_content r \<noteq> None) rs"
    from Some Cons.prems have d: "distinct (map sr_id ?rows)"
      and fresh: "sr_id r \<notin> sr_id ` set ?rows" and new: "sr_id r \<notin> fst ` set m"
      and disj: "sr_id ` set ?rows \<inter> fst ` set m = {}"
      by auto
    from new have sv: "set_vector r c m = m @ [vector_entry r]"
      by (simp add: set_vector_def update_fresh vector_entry_def Some)
    have "sr_id ` set ?rows \<inter> fst ` set (m @ [vector_entry r]) = {}"
      using disj fresh by (auto simp: vector_entry_def)
    from Cons.IH[OF d this] show ?thesis
      by (simp add: Some sv)
  qed
qed

lemma vector_pass_rows:
  assumes "distinct (map sr_id (vector_rows vres))"
  shows "fst (vector_pass vres) = map vector_entry (vector_rows vres)"
proof (cases vres)
  case (Inl msg)
  then show ?thesis by (simp add: vector_pass_def vector_rows_def returned_def)
next
  case (Inr rs)
  with assms have "distinct (map sr_id (takeWhile (\<lambda>r. sr_content r \<noteq> None) rs))"
    by (simp add: vector_rows_def returned_def)
  from vector_loop_rows[OF this, of "[]"] Inr show ?thesis
    by (simp add: vector_pass_def vector_rows_def returned_def)
qed

lemma keywords_fold:
  assumes "distinct (map hit_id fs)" and "distinct (map fst m)"
  shows "fold merge_keyword fs m =
           map (\<lambda>(k, c). (k, if k \<in> hit_id ` set fs then boost c else c)) m
           @ map (\<lambda>f. (hit_id f, keyword_candidate f)) (filter (\<lambda>f. hit_id f \<notin> fst ` set m) fs)"
  using assms
proof (induction fs arbitrary: m)
  case Nil
  then show ?case by (simp add: case_prod_unfold)
next
  case (Cons f fs)
  then have d: "distinct (map hit_id fs)" and nf: "hit_id f \<notin> hit_id ` set fs" by auto
  note dm = Cons.prems(2)
  show ?case
  proof (cases "map_of m (hit_id f)")
    case None
    then have fresh: "hit_id f \<notin> fst ` set m" by (simp add: map_of_eq_None_iff)
    then have step: "merge_keyword f m = m @ [(hit_id f, keyword_candidate f)]"
      by (simp add: merge_keyword_def None update_fresh)
    have dm': "distinct (map fst (m @ [(hit_id f, keyword_candidate f)]))"
      using dm fresh by simp
    have same: "map (\<lambda>(k, c). (k, if k \<in> hit_id ` set fs then boost c else c)) m
        = map (\<lambda>(k, c). (k, if k \<in> hit_id ` set (f # fs) then boost c else c)) m"
      using fresh by (auto simp: image_iff)
    have rest: "filter (\<lambda>g. hit_id g \<notin> fst ` set (m @ [(hit_id f, keyword_candidate f)])) fs
        = filter (\<lambda>g. hit_id g \<notin> fst ` set m) fs"
    proof (rule filter_cong[OF refl])
      fix g
      assume "g \<in> set fs"
      with nf have "hit_id g \<noteq> hit_id f" by (metis imageI)
      then show "(hit_id g \<notin> fst ` set (m @ [(hit_id f, keyword_candidate f)]))
          = (hit_id g \<notin> fst ` set m)" by simp
    qed
    show ?thesis
      unfolding fold_simps step Cons.IH[OF d dm'] rest map_append same
      using fresh nf by simp
  next
    case (Some ex)
    then have "(hit_id f, ex) \<in> set m" by (rule map_of_SomeD)
    then have present: "hit_id f \<in> fst ` set m" by force
    let ?g = "\<lambda>(k, c). (k, if k = hit_id f then boost ex else c)"
    have step: "merge_keyword f m = map ?g m"
      by (simp add: merge_keyword_def Some update_present[OF dm present])
    have kf: "map fst (map ?g m) = map fst m"
      by (simp add: case_prod_unfold comp_def)
    then have keys: "fst ` set (map ?g m) = fst ` set m"
      by (metis set_map)
    have dm': "distinct (map fst (map ?g m))" by (simp only: kf dm)
    have same: "map (\<lambda>(k, c). (k, if k \<in> hit_id ` set fs then boost c else c)) (map ?g m)
        = map (\<lambda>(k, c). (k, if k \<in> hit_id ` set (f # fs) then boost c else c)) m"
    proof (simp, intro ballI)
      fix p
      assume p: "p \<in> set m"
      obtain k c where kc: "p = (k, c)" by (cases p)
      show "(case ?g p of (k, c) \<Rightarrow> (k, if k \<in> hit_id ` set fs then boost c else c))
          = (case p of (k, c) \<Rightarrow> (k, if k = hit_id f \<or> k \<in> hit_id ` set fs then boost c else c))"
      proof (cases "k = hit_id f")
        case True
        with p kc dm have "map_of m (hit_id f) = Some c" by simp
        with Some have "c = ex" by simp
        with True nf kc show ?thesis by simp
      next
        case False
        with kc show ?thesis by simp
      qed
    qed
    show ?thesis
      unfolding fold_simps step Cons.IH[OF d dm'] keys same
      using present by simp
  qed
qed

lemma fst_vector_entry: "map fst (map vector_entry vs) = map sr_id vs"
  by (simp add: vector_entry_def comp_def)

lemma candidates_fused:
  assumes dv: "distinct (map sr_id (vector_rows vres))"
    and df: "distinct (map hit_id (returned fres))"
  shows "candidates_of vres fres =
     map (\<lambda>v. if sr_id v \<in> hit_id ` set (returned fres) then boost (snd (vector_entry v))
               else snd (vector_entry v)) (vector_rows vres)
     @ map keyword_candidate
         (filter (\<lambda>f. hit_id f \<notin> sr_id ` set (vector_rows vres)) (returned fres))"
proof -
  let ?m = "map vector_entry (vector_rows vres)"
  have kp: "keyword_pass fres ?m = fold merge_keyword (returned fres) ?m"
    by (cases fres) (simp_all add: keyword_pass_def returned_def)
  have dm: "distinct (map fst ?m)"
    unfolding fst_vector_entry by (rule dv)
  have keys: "fst ` set ?m = sr_id ` set (vector_rows vres)"
    using fst_vector_entry[of "vector_rows vres"] by (metis set_map)
  show ?thesis
    unfolding candidates_of_def vector_pass_rows[OF dv] kp keywords_fold[OF df dm] keys
    by (simp add: vector_entry_def case_prod_unfold comp_def)
qed

lemma slice0_take: "\<exists>k. slice0 ys n = take k ys"
  by (auto simp: slice0_def)

lemma slice_to_take: "\<exists>k. slice_to ys e = take k ys"
proof (cases e)
  case (Fin x)
  then show ?thesis using slice0_take[of ys "trunc x"] by (simp add: slice_to_def)
next
  case PosInf
  then have "slice_to ys e = take (length ys) ys" by (simp add: slice_to_def)
  then show ?thesis ..
next
  case NegInf
  then have "slice_to ys e = take 0 ys" by (simp add: slice_to_def)
  then show ?thesis ..
next
  case NaN
  then have "slice_to ys e = take 0 ys" by (simp add: slice_to_def)
  then show ?thesis ..
qed

lemma take_best:
  assumes "sorted_wrt R ys" and "a \<in> set (take k ys)" and "b \<in> set ys" and "b \<notin> set (take k ys)"
  shows "R a b"
proof -
  from assms(3,4) have "b \<in> set (drop k ys)"
    by (metis Un_iff append_take_drop_id set_append)
  moreover from assms(1) have "sorted_wrt R (take k ys @ drop k ys)" by simp
  ultimately show ?thesis
    using assms(2) unfolding sorted_wrt_append by blast
qed

lemma descending_sort: "descending (sort_by_score cs)"
proof -
  have "sorted (map (\<lambda>c. - score c) (sort_key (\<lambda>c. - score c) cs))"
    by (rule sorted_sort_key)
  then show ?thesis
    by (simp add: descending_def sort_by_score_def sorted_map sorted_wrt_map)
qed

lemma hits_best:
  assumes "out = hits (search_documents vres fres limit)"
  shows "descending out"
    and "set out \<subseteq> set (candidates_of vres fres)"
    and "distinct (candidates_of vres fres) \<Longrightarrow> distinct out"
    and "\<forall>a \<in> set out. \<forall>b \<in> set (candidates_of vres fres) - set out. score b \<le> score a"
proof -
  let ?s = "sort_by_score (candidates_of vres fres)"
  obtain k where "slice_to ?s (limit_of limit) = take k ?s"
    using slice_to_take by blast
  with assms have out: "out = take k ?s" by (simp add: search_documents_def Let_def)
  have s: "sorted_wrt (\<lambda>a b. score a \<ge> score b) ?s"
    using descending_sort[of "candidates_of vres fres"] by (simp add: descending_def)
  have st: "set ?s = set (candidates_of vres fres)" by (simp add: sort_by_score_def)
  show "descending out"
    unfolding out descending_def using s by (rule sorted_wrt_take)
  show "set out \<subseteq> set (candidates_of vres fres)"
    unfolding out st[symmetric] by (rule set_take_subset)
  show "distinct out" if "distinct (candidates_of vres fres)"
    unfolding out using that by (simp add: sort_by_score_def)
  show "\<forall>a \<in> set out. \<forall>b \<in> set (candidates_of vres fres) - set out. score b \<le> score a"
    unfolding out st[symmetric] using take_best[OF s] by blast
qed

lemma hits_length:
  "length (hits (search_documents vres fres limit)) =
     length (slice_to (candidates_of vres fres) (limit_of limit))"
proof -
  have "length (slice_to xs e) = length (slice_to ys e)" if "length xs = length ys"
    for xs ys :: "candidate list" and e
    using that by (cases e) (simp_all add: slice_to_def slice0_def)
  from this[of "sort_by_score (candidates_of vres fres)" "candidates_of vres fres"] show ?thesis
    by (simp add: search_documents_def Let_def sort_by_score_def)
qed

lemma candidate_ids:
  assumes dv: "distinct (map sr_id (vector_rows vres))"
    and df: "distinct (map hit_id (returned fres))"
  shows "map cand_id (candidates_of vres fres) =
           map sr_id (vector_rows vres)
           @ filter (\<lambda>k. k \<notin> sr_id ` set (vector_rows vres)) (map hit_id (returned fres))"
    and "distinct (map cand_id (candidates_of vres fres))"
proof -
  show ids: "map cand_id (candidates_of vres fres) =
           map sr_id (vector_rows vres)
           @ filter (\<lambda>k. k \<notin> sr_id ` set (vector_rows vres)) (map hit_id (returned fres))"
    unfolding candidates_fused[OF dv df]
    by (simp add: filter_map comp_def vector_entry_def vector_candidate_def boost_def
        keyword_candidate_def)
  show "distinct (map cand_id (candidates_of vres fres))"
    unfolding ids using dv df by auto
qed

lemma both_paths:
  assumes dv: "distinct (map sr_id (vector_rows vres))"
    and df: "distinct (map hit_id (returned fres))"
  shows "\<forall>v \<in> set (vector_rows vres). \<forall>f \<in> set (returned fres). sr_id v = hit_id f \<longrightarrow>
           (\<exists>c \<in> set (candidates_of vres fres).
              cand_id c = sr_id v \<and> score c = sr_score v + 2 / 10 \<and> cand_source c = ''hybrid'')"
proof (intro ballI impI)
  fix v f
  assume v: "v \<in> set (vector_rows vres)" and f: "f \<in> set (returned fres)"
    and eq: "sr_id v = hit_id f"
  let ?c = "boost (snd (vector_entry v))"
  from f eq have "sr_id v \<in> hit_id ` set (returned fres)" by simp
  with v have mem: "?c \<in> set (candidates_of vres fres)"
    unfolding candidates_fused[OF dv df] by force
  have props: "cand_id ?c = sr_id v \<and> score ?c = sr_score v + 2 / 10 \<and> cand_source ?c = ''hybrid''"
    by (simp add: boost_def vector_entry_def vector_candidate_def)
  show "\<exists>c \<in> set (candidates_of vres fres).
      cand_id c = sr_id v \<and> score c = sr_score v + 2 / 10 \<and> cand_source c = ''hybrid''"
    by (rule bexI[where x = "?c" and
          P = "\<lambda>c. cand_id c = sr_id v \<and> score c = sr_score v + 2 / 10 \<and> cand_source c = ''hybrid''",
          OF props mem])
qed

lemma keyword_only:
  assumes dv: "distinct (map sr_id (vector_rows vres))"
    and df: "distinct (map hit_id (returned fres))"
  shows "\<forall>f \<in> set (returned fres). hit_id f \<notin> sr_id ` set (vector_rows vres) \<longrightarrow>
           (\<exists>c \<in> set (candidates_of vres fres).
              cand_id c = hit_id f \<and> score c = 5 / 10 \<and> cand_source c = ''keyword'')"
proof (intro ballI impI)
  fix f
  assume f: "f \<in> set (returned fres)" and n: "hit_id f \<notin> sr_id ` set (vector_rows vres)"
  let ?c = "keyword_candidate f"
  from f n have mem: "?c \<in> set (candidates_of vres fres)"
    unfolding candidates_fused[OF dv df] by simp
  have props: "cand_id ?c = hit_id f \<and> score ?c = 5 / 10 \<and> cand_source ?c = ''keyword''"
    by (simp add: keyword_candidate_def)
  show "\<exists>c \<in> set (candidates_of vres fres).
      cand_id c = hit_id f \<and> score c = 5 / 10 \<and> cand_source c = ''keyword''"
    by (rule bexI[where x = "?c" and
          P = "\<lambda>c. cand_id c = hit_id f \<and> score c = 5 / 10 \<and> cand_source c = ''keyword''",
          OF props mem])
qed

lemma vector_only:
  assumes dv: "distinct (map sr_id (vector_rows vres))"
    and df: "distinct (map hit_id (returned fres))"
  shows "\<forall>v \<in> set (vector_rows vres). sr_id v \<notin> hit_id ` set (returned fres) \<longrightarrow>
           (\<exists>c \<in> set (candidates_of vres fres).
              cand_id c = sr_id v \<and> score c = sr_score v \<and> cand_source c = ''vector'')"
proof (intro ballI impI)
  fix v
  assume v: "v \<in> set (vector_rows vres)" and n: "sr_id v \<notin> hit_id ` set (returned fres)"
  let ?c = "snd (vector_entry v)"
  from v n have mem: "?c \<in> set (candidates_of vres fres)"
    unfolding candidates_fused[OF dv df] by force
  have props: "cand_id ?c = sr_id v \<and> score ?c = sr_score v \<and> cand_source ?c = ''vector''"
    by (simp add: vector_entry_def vector_candidate_def)
  show "\<exists>c \<in> set (candidates_of vres fres).
      cand_id c = sr_id v \<and> score c = sr_score v \<and> cand_source c = ''vector''"
    by (rule bexI[where x = "?c" and
          P = "\<lambda>c. cand_id c = sr_id v \<and> score c = sr_score v \<and> cand_source c = ''vector''",
          OF props mem])
qed

lemma hits_count:
  fixes vres fres limit
  defines "out \<equiv> hits (search_documents vres fres limit)"
    and "cs \<equiv> candidates_of vres fres"
  shows "limit = None \<or> limit = Some (Fin 0) \<or> limit = Some NaN \<longrightarrow> length out = min 20 (length cs)"
    and "\<forall>x. limit = Some (Fin x) \<and> 0 < x \<longrightarrow> length out = min (nat \<lfloor>x\<rfloor>) (length cs)"
    and "\<forall>x. limit = Some (Fin x) \<and> - 1 < x \<and> x < 0 \<longrightarrow> out = []"
    and "\<forall>x. limit = Some (Fin x) \<and> x \<le> - 1 \<longrightarrow> length out = length cs - nat \<lfloor>- x\<rfloor>"
    and "limit = Some PosInf \<longrightarrow> length out = length cs"
    and "limit = Some NegInf \<longrightarrow> out = []"
proof -
  have len: "length out = length (slice_to cs (limit_of limit))"
    unfolding out_def cs_def by (rule hits_length)
  show "limit = None \<or> limit = Some (Fin 0) \<or> limit = Some NaN \<longrightarrow> length out = min 20 (length cs)"
    unfolding len by (auto simp: limit_of_def slice_to_def slice0_def trunc_def)
  show "\<forall>x. limit = Some (Fin x) \<and> 0 < x \<longrightarrow> length out = min (nat \<lfloor>x\<rfloor>) (length cs)"
    unfolding len by (auto simp: limit_of_def slice_to_def slice0_def trunc_def)
  show "\<forall>x. limit = Some (Fin x) \<and> - 1 < x \<and> x < 0 \<longrightarrow> out = []"
  proof (intro allI impI)
    fix x :: real
    assume a: "limit = Some (Fin x) \<and> - 1 < x \<and> x < 0"
    then have "\<lceil>x\<rceil> = 0" by (simp add: ceiling_eq_iff)
    with a have "length out = 0"
      unfolding len by (simp add: limit_of_def slice_to_def slice0_def trunc_def)
    then show "out = []" by simp
  qed
  show "\<forall>x. limit = Some (Fin x) \<and> x \<le> - 1 \<longrightarrow> length out = length cs - nat \<lfloor>- x\<rfloor>"
    unfolding len by (auto simp: limit_of_def slice_to_def slice0_def trunc_def ceiling_def)
  show "limit = Some PosInf \<longrightarrow> length out = length cs"
    unfolding len by (simp add: limit_of_def slice_to_def)
  show "limit = Some NegInf \<longrightarrow> out = []"
    unfolding out_def by (simp add: search_documents_def Let_def limit_of_def slice_to_def)
qed

lemma demo_candidates:
  "map (\<lambda>c. (cand_id c, score c, cand_source c))
     (candidates_of (Inr demo_vector_hits) (Inr demo_keyword_hits))
   = [(''A'', 9 / 10, ''vector''), (''B'', 6 / 10, ''hybrid''), (''C'', 5 / 10, ''keyword'')]"
  by (simp add: candidates_of_def vector_pass_def keyword_pass_def demo_vector_hits_def
      demo_keyword_hits_def set_vector_def merge_keyword_def vector_candidate_def
      keyword_candidate_def boost_def)

lemma map_slice_to: "map g (slice_to xs e) = slice_to (map g xs) e"
  by (cases e) (simp_all add: slice_to_def slice0_def take_map)

lemma demo_sorted:
  "map (\<lambda>c. (cand_id c, score c, cand_source c))
     (sort_by_score (candidates_of (Inr demo_vector_hits) (Inr demo_keyword_hits)))
   = [(''A'', 9 / 10, ''vector''), (''B'', 6 / 10, ''hybrid''), (''C'', 5 / 10, ''keyword'')]"
  by (simp add: candidates_of_def vector_pass_def keyword_pass_def
      demo_vector_hits_def demo_keyword_hits_def set_vector_def merge_keyword_def
      vector_candidate_def keyword_candidate_def boost_def sort_by_score_def)

lemma demo_hits:
  "map (\<lambda>c. (cand_id c, score c, cand_source c))
     (hits (search_documents (Inr demo_vector_hits) (Inr demo_keyword_hits) limit))
   = slice_to [(''A'', 9 / 10, ''vector''), (''B'', 6 / 10, ''hybrid''), (''C'', 5 / 10, ''keyword'')]
       (limit_of limit)"
  unfolding demo_sorted[symmetric] map_slice_to[symmetric]
  by (simp add: search_documents_def Let_def)

text \<open>
  C7 as stated fails on the length of the answer: for the two vector hits \<open>A\<close>, \<open>B\<close> and
  the two keyword hits \<open>B\<close>, \<open>C\<close> with \<open>limit = -1\<close>, \<open>slice(0, -1)\<close> drops the last of
  the three candidates and the answer has two entries, more than the limit.
\<close>

theorem search_documents_negative_limit:
  "map (\<lambda>c. (cand_id c, score c, cand_source c))
     (hits (search_documents (Inr demo_vector_hits) (Inr demo_keyword_hits) (Some (Fin (- 1)))))
     = [(''A'', 9 / 10, ''vector''), (''B'', 6 / 10, ''hybrid'')]
   \<and> \<not> real (length (hits (search_documents (Inr demo_vector_hits) (Inr demo_keyword_hits)
                (Some (Fin (- 1)))))) \<le> - 1"
proof -
  let ?out = "hits (search_documents (Inr demo_vector_hits) (Inr demo_keyword_hits) (Some (Fin (- 1))))"
  have eq: "map (\<lambda>c. (cand_id c, score c, cand_source c)) ?out
     = [(''A'', 9 / 10, ''vector''), (''B'', 6 / 10, ''hybrid'')]"
    unfolding demo_hits by (simp add: limit_of_def slice_to_def slice0_def trunc_def ceiling_def)
  have "length ?out = length (map (\<lambda>c. (cand_id c, score c, cand_source c)) ?out)"
    by simp
  also have "\<dots> = 2" unfolding eq by simp
  finally have "\<not> real (length ?out) \<le> - 1" by simp
  with eq show ?thesis by (rule conjI)
qed

text \<open>
  C7 amended. The rows of the vector path are those that reach the map (the loop ends
  at the first row whose content is \<open>null\<close>); their ids are distinct, and so are those
  of the keyword hits (\<open>id\<close> is the primary key of \<open>nodes\<close>, and each FTS row joins one
  node). Then the map holds one candidate for every id of either path and no other, in
  the order vector rows first: an id of both paths with the vector score plus 0.2 and
  the tag \<open>hybrid\<close>, an id of the keyword path alone with score 0.5 and the tag
  \<open>keyword\<close>, an id of the vector path alone with its score and the tag \<open>vector\<close>. The
  answer is sorted by score, highest first, consists of candidates, each once, and no
  candidate left out scores higher than one in it. Its length is the smaller of the
  number of candidates and the limit, cut to an integer, when the limit is positive,
  and of 20 when the limit is missing, 0 or \<open>NaN\<close>; a negative limit of -1 or below
  drops that many candidates from the end instead.
\<close>

theorem search_documents_fusion:
  assumes "distinct (map sr_id (vector_rows vres))"
    and "distinct (map hit_id (returned fres))"
  shows "(\<forall>v \<in> set (vector_rows vres). \<forall>f \<in> set (returned fres). sr_id v = hit_id f \<longrightarrow>
            (\<exists>c \<in> set (candidates_of vres fres).
               cand_id c = sr_id v \<and> score c = sr_score v + 2 / 10 \<and> cand_source c = ''hybrid''))
       \<and> (\<forall>f \<in> set (returned fres). hit_id f \<notin> sr_id ` set (vector_rows vres) \<longrightarrow>
            (\<exists>c \<in> set (candidates_of vres fres).
               cand_id c = hit_id f \<and> score c = 5 / 10 \<and> cand_source c = ''keyword''))
       \<and> (\<forall>v \<in> set (vector_rows vres). sr_id v \<notin> hit_id ` set (returned fres) \<longrightarrow>
            (\<exists>c \<in> set (candidates_of vres fres).
               cand_id c = sr_id v \<and> score c = sr_score v \<and> cand_source c = ''vector''))
       \<and> map cand_id (candidates_of vres fres) =
            map sr_id (vector_rows vres)
            @ filter (\<lambda>k. k \<notin> sr_id ` set (vector_rows vres)) (map hit_id (returned fres))
       \<and> distinct (map cand_id (candidates_of vres fres))
       \<and> descending (hits (search_documents vres fres limit))
       \<and> set (hits (search_documents vres fres limit)) \<subseteq> set (candidates_of vres fres)
       \<and> distinct (hits (search_documents vres fres limit))
       \<and> (\<forall>a \<in> set (hits (search_documents vres fres limit)).
            \<forall>b \<in> set (candidates_of vres fres) - set (hits (search_documents vres fres limit)).
              score b \<le> score a)
       \<and> (limit = None \<or> limit = Some (Fin 0) \<or> limit = Some NaN \<longrightarrow>
            length (hits (search_documents vres fres limit)) = min 20 (length (candidates_of vres fres)))
       \<and> (\<forall>x. limit = Some (Fin x) \<and> 0 < x \<longrightarrow>
            length (hits (search_documents vres fres limit))
              = min (nat \<lfloor>x\<rfloor>) (length (candidates_of vres fres)))
       \<and> (\<forall>x. limit = Some (Fin x) \<and> - 1 < x \<and> x < 0 \<longrightarrow>
            hits (search_documents vres fres limit) = [])
       \<and> (\<forall>x. limit = Some (Fin x) \<and> x \<le> - 1 \<longrightarrow>
            length (hits (search_documents vres fres limit))
              = length (candidates_of vres fres) - nat \<lfloor>- x\<rfloor>)
       \<and> (limit = Some PosInf \<longrightarrow>
            length (hits (search_documents vres fres limit)) = length (candidates_of vres fres))
       \<and> (limit = Some NegInf \<longrightarrow> hits (search_documents vres fres limit) = [])"
proof -
  note ids = candidate_ids[OF assms]
  from ids(2) have dc: "distinct (candidates_of vres fres)" by (simp add: distinct_map)
  note best = hits_best[OF refl, of vres fres limit]
  note count = hits_count[of limit vres fres]
  show ?thesis
    by (intro conjI)
      (rule both_paths[OF assms] keyword_only[OF assms] vector_only[OF assms] ids best(1) best(2)
        best(3)[OF dc] best(4) count)+
qed

theorem search_documents_fusion_witness:
  "distinct (map sr_id (vector_rows (Inr demo_vector_hits :: string + SearchResult list)))
   \<and> distinct (map hit_id (returned (Inr demo_keyword_hits :: sql_error + fts_hit list)))
   \<and> map (\<lambda>c. (cand_id c, score c, cand_source c))
        (candidates_of (Inr demo_vector_hits) (Inr demo_keyword_hits))
      = [(''A'', 9 / 10, ''vector''), (''B'', 6 / 10, ''hybrid''), (''C'', 5 / 10, ''keyword'')]
   \<and> map (\<lambda>c. (cand_id c, score c, cand_source c))
        (hits (search_documents (Inr demo_vector_hits) (Inr demo_keyword_hits) (Some (Fin 2))))
      = [(''A'', 9 / 10, ''vector''), (''B'', 6 / 10, ''hybrid'')]
   \<and> descending (hits (search_documents (Inr demo_vector_hits) (Inr demo_keyword_hits) (Some (Fin 2))))
   \<and> length (hits (search_documents (Inr demo_vector_hits) (Inr demo_keyword_hits) (Some (Fin 2))))
      = min 2 (length (candidates_of (Inr demo_vector_hits) (Inr demo_keyword_hits)))"
proof -
  have d1: "distinct (map sr_id (vector_rows (Inr demo_vector_hits :: string + SearchResult list)))"
    by (simp add: vector_rows_def returned_def demo_vector_hits_def)
  have d2: "distinct (map hit_id (returned (Inr demo_keyword_hits :: sql_error + fts_hit list)))"
    by (simp add: returned_def demo_keyword_hits_def)
  have ev: "map (\<lambda>c. (cand_id c, score c, cand_source c))
        (hits (search_documents (Inr demo_vector_hits) (Inr demo_keyword_hits) (Some (Fin 2))))
      = [(''A'', 9 / 10, ''vector''), (''B'', 6 / 10, ''hybrid'')]"
    unfolding demo_hits by (simp add: limit_of_def slice_to_def slice0_def trunc_def)
  from search_documents_fusion[OF d1 d2, of "Some (Fin 2)"]
  have "descending (hits (search_documents (Inr demo_vector_hits) (Inr demo_keyword_hits) (Some (Fin 2))))"
    and "length (hits (search_documents (Inr demo_vector_hits) (Inr demo_keyword_hits) (Some (Fin 2))))
      = min 2 (length (candidates_of (Inr demo_vector_hits) (Inr demo_keyword_hits)))"
    by simp_all
  with d1 d2 ev demo_candidates show ?thesis by simp
qed
section \<open>Change detection\<close>

lemma processBox_skip:
  "getNodeHash (store st) i = Some (hashContent sv c) \<Longrightarrow> processBox sv w st i c ty fm p = st"
  by (simp add: processBox_def Let_def)

lemma processFile_boxes:
  "fst (processFile sv w st f) =
     fold (\<lambda>(i, c) s. processBox sv w s i c (file_type f) (frontmatter (file_content f)) (file_path f))
       (file_boxes f) st"
proof -
  have loop: "fst (fold (\<lambda>(i, b) (s, total).
                   (processBox sv w s i (trim b) ty fm p, total + length (trim b))) bs (s0, n0))
     = fold (\<lambda>(i, c) s. processBox sv w s i c ty fm p) (map (\<lambda>(i, b). (i, trim b)) bs) s0"
    for bs s0 n0 ty fm p
    by (induction bs arbitrary: s0 n0) (auto split: prod.splits)
  show ?thesis
    by (simp add: processFile_def file_boxes_def Let_def loop)
qed

lemma fold_boxes_skip:
  "\<forall>b \<in> set bs. getNodeHash (store st) (fst b) = Some (hashContent sv (snd b)) \<Longrightarrow>
     fold (\<lambda>(i, c) s. processBox sv w s i c ty fm p) bs st = st"
  by (induction bs) (auto simp: processBox_skip)

lemma processFiles_fst:
  "fst (processFiles sv w st files) = fold (\<lambda>f s. fst (processFile sv w s f)) files st"
proof -
  have "fst (fold (\<lambda>f (s, totalChars). case processFile sv w s f of (s', n) \<Rightarrow> (s', totalChars + n))
       files (s0, n0)) = fold (\<lambda>f s. fst (processFile sv w s f)) files s0" for s0 n0
    by (induction files arbitrary: s0 n0) (auto split: prod.splits)
  then show ?thesis by (simp add: processFiles_def)
qed

lemma processFiles_skip:
  "\<forall>f \<in> set files. \<forall>b \<in> set (file_boxes f).
      getNodeHash (store st) (fst b) = Some (hashContent sv (snd b)) \<Longrightarrow>
   fst (processFiles sv w st files) = st"
  unfolding processFiles_fst
  by (induction files) (auto simp: processFile_boxes fold_boxes_skip)

section \<open>Files without locus markers\<close>

lemma match_box_marker: "match_box s = Some x \<Longrightarrow> marker_here s"
proof -
  assume m: "match_box s = Some x"
  let ?rest = "dropWhile id_char (drop (length locus_open) s)"
  from m have p: "prefix locus_open s"
    and i: "takeWhile id_char (drop (length locus_open) s) \<noteq> []"
    and c: "prefix locus_close ?rest"
    by (auto simp: match_box_def Let_def split: if_splits)
  have "locus_close = '' -->'' @ [CHR 0x0A]" by (simp add: locus_close_def)
  with c have "prefix '' -->'' ?rest" by (metis append_prefixD)
  with p i show ?thesis by (simp add: marker_here_def)
qed

lemma marker_tl: "has_locus_marker (tl s) \<Longrightarrow> has_locus_marker s"
  by (cases s) (auto simp: has_locus_marker_def)

lemma marker_self: "marker_here s \<Longrightarrow> has_locus_marker s"
  by (cases s) (auto simp: has_locus_marker_def)

lemma no_marker_no_match: "\<not> has_locus_marker s \<Longrightarrow> exec_all s = []"
proof (induction s rule: exec_all.induct)
  case (1 s)
  show ?case
  proof (cases "s = []")
    case True
    then show ?thesis by (simp add: exec_all.simps)
  next
    case False
    from "1.prems" have none: "match_box s = None"
      using match_box_marker marker_self by (cases "match_box s") auto
    from "1.prems" have "\<not> has_locus_marker (tl s)" using marker_tl by blast
    with "1.IH"(1)[OF False none] have "exec_all (tl s) = []" by simp
    with False none show ?thesis
      by (subst exec_all.simps) simp
  qed
qed

lemma processFile_plain:
  assumes "\<not> has_locus_marker (file_content f)"
  shows "processFile sv w st f =
     (if length (file_content f) > 10
      then (processBox sv w st
              (file_slug (if basename (file_path f) = [] then ''unknown''
                          else basename (file_path f)))
              (file_content f) (file_type f) (frontmatter (file_content f)) (file_path f),
            length (file_content f))
      else (st, 0))"
  using no_marker_no_match[OF assms] by (simp add: processFile_def box_matches_def Let_def)

lemma plain_no_marker: "\<not> has_locus_marker (file_content plain_file)"
  by (simp add: plain_file_def has_locus_marker_def marker_here_def locus_open_def)

lemma tiny_no_marker: "\<not> has_locus_marker (file_content tiny_file)"
  by (simp add: tiny_file_def has_locus_marker_def marker_here_def locus_open_def)

section \<open>Stored hashes\<close>

lemma nodes_insertEdge: "nodes (insertEdge d s t ty) = nodes d"
  by (simp add: insertEdge_def)

lemma nodes_safeInsertEdge: "nodes (safeInsertEdge d s t ty) = nodes d"
  by (simp add: safeInsertEdge_def nodes_insertEdge)

lemma nodes_safeInsertAll: "nodes (safeInsertAll d s ts) = nodes d"
  unfolding safeInsertAll_def
  by (induction ts arbitrary: d) (auto simp: nodes_safeInsertEdge)

lemma nodes_weave: "nodes (weave w d s c) = nodes d"
  by (simp add: weave_def processTags_def processWikiLinks_def processMetadataTags_def
      nodes_safeInsertAll)






lemma find_replaced:
  "node_id y = k \<Longrightarrow> find (\<lambda>r. node_id r = k) (filter (\<lambda>r. node_id r \<noteq> k) xs @ [y]) = Some y"
  by (induction xs) auto

lemma getNodeHash_insertNode: "getNodeHash (insertNode d n) (n_id n) = hash (node_row n)"
proof -
  have "node_id (node_row n) = n_id n" by (simp add: node_row_def)
  from find_replaced[OF this, of "nodes d"] show ?thesis
    by (simp add: getNodeHash_def insertNode_def)
qed

lemma getNodeHash_weave: "getNodeHash (weave w d s c) i = getNodeHash d i"
  by (simp add: getNodeHash_def nodes_weave)

lemma processBox_stores_hash:
  assumes "\<forall>x. md5 sv x \<noteq> []"
  shows "getNodeHash (store (processBox sv w st i c ty fm p)) i = Some (hashContent sv c)"
proof (cases "getNodeHash (store st) i = Some (hashContent sv c)")
  case True
  then show ?thesis by (simp add: processBox_def Let_def)
next
  case False
  have ne: "hashContent sv c \<noteq> []" using assms by (simp add: hashContent_def)
  let ?n = "\<lparr>n_id = i, n_type = ty,
       n_label = Some (or_else (map_of fm ''title'') (basename p)),
       n_content = Some c, n_domain = Some ''experience'', n_layer = Some ''note'',
       n_embedding = (if length c > 50 then embed sv c else None),
       n_hash = Some (hashContent sv c),
       n_meta = Some (box_meta fm p (extract_tokens sv c))\<rparr>"
  have "getNodeHash (insertNode (store st) ?n) (n_id ?n) = hash (node_row ?n)"
    by (rule getNodeHash_insertNode)
  with ne have "getNodeHash (insertNode (store st) ?n) i = Some (hashContent sv c)"
    by (simp add: node_row_def truthy_def)
  with False show ?thesis
    by (simp add: processBox_def Let_def getNodeHash_weave)
qed




section \<open>Which edge insertions pass the gate\<close>

lemma admitted_trans: "admitted b c \<Longrightarrow> admitted a b \<Longrightarrow> admitted a c"
  by (induction rule: admitted.induct) (auto intro: admitted.intros)

lemma admitted_safeInsertEdge: "admitted d (safeInsertEdge d s t ty)"
  by (auto simp: safeInsertEdge_def intro: admitted.intros)

lemma admitted_safeInsertAll: "admitted d (safeInsertAll d s ts)"
  unfolding safeInsertAll_def
proof (induction ts arbitrary: d)
  case Nil
  then show ?case by (simp add: admitted.same)
next
  case (Cons a ts)
  obtain t ty where a: "a = (t, ty)" by (cases a)
  from Cons.IH[of "safeInsertEdge d s t ty"] admitted_safeInsertEdge[of d s t ty]
  show ?case by (simp add: a) (rule admitted_trans)
qed

lemma admitted_weave: "admitted d (weave w d s c)"
  unfolding weave_def processTags_def processWikiLinks_def processMetadataTags_def
  by (blast intro: admitted_trans admitted_safeInsertAll)

lemma admitted_ingestRelationship: "admitted d (ingestRelationship i r d)"
  by (auto simp: ingestRelationship_def intro: admitted.intros)

lemma admitted_relationships: "admitted d (fold (ingestRelationship i) rs d)"
proof (induction rs arbitrary: d)
  case Nil
  then show ?case by (simp add: admitted.same)
next
  case (Cons r rs)
  from Cons.IH[of "ingestRelationship i r d"] admitted_ingestRelationship[of d i r]
  show ?case by simp (rule admitted_trans)
qed

lemma admitted_ingestEntry: "admitted d (ingestEntry e d)"
  unfolding ingestEntry_def
  by (blast intro: admitted_trans admitted_relationships admitted.intros)

lemma admitted_ingestCDA: "admitted d (ingestCDA d entries)"
  unfolding ingestCDA_def
proof (induction entries arbitrary: d)
  case Nil
  then show ?case by (simp add: admitted.same)
next
  case (Cons e es)
  from Cons.IH[of "ingestEntry e d"] admitted_ingestEntry[of d e]
  show ?case by simp (rule admitted_trans)
qed

lemma admitted_processBox: "admitted (store st) (store (processBox sv w st i c ty fm p))"
proof (cases "getNodeHash (store st) i = Some (hashContent sv c)")
  case True
  then show ?thesis by (simp add: processBox_def Let_def admitted.same)
next
  case False
  then show ?thesis
    by (simp add: processBox_def Let_def)
      (blast intro: admitted_trans admitted_weave admitted.intros)
qed

lemma admitted_boxes:
  "admitted (store st) (store (fold (\<lambda>(i, c) s. processBox sv w s i c ty fm p) bs st))"
proof (induction bs arbitrary: st)
  case Nil
  then show ?case by (simp add: admitted.same)
next
  case (Cons b bs)
  obtain i c where b: "b = (i, c)" by (cases b)
  from Cons.IH[of "processBox sv w st i c ty fm p"] admitted_processBox[of st sv w i c ty fm p]
  show ?case by (simp add: b) (rule admitted_trans)
qed

lemma admitted_processFile: "admitted (store st) (store (fst (processFile sv w st f)))"
  by (simp add: processFile_boxes admitted_boxes)

lemma admitted_processFiles: "admitted (store st) (store (fst (processFiles sv w st files)))"
  unfolding processFiles_fst
proof (induction files arbitrary: st)
  case Nil
  then show ?case by (simp add: admitted.same)
next
  case (Cons f fs)
  from Cons.IH[of "fst (processFile sv w st f)"] admitted_processFile[of st sv w f]
  show ?case by simp (rule admitted_trans)
qed

text \<open>What a reachable store means for an edge that was not there at the start.\<close>

lemma admitted_edge_checked:
  "admitted d d' \<Longrightarrow> e \<in> set (edges d') \<Longrightarrow> e \<notin> set (edges d) \<Longrightarrow>
     \<exists>d''. admitted d d'' \<and> e \<notin> set (edges d'') \<and>
            allowed (check d'' (source e) (target e) 50)"
proof (induction rule: admitted.induct)
  case (same d)
  then show ?case by simp
next
  case (node d d' n)
  then show ?case by (simp add: insertNode_def)
next
  case (edge d d' s t ty)
  show ?case
  proof (cases "e \<in> set (edges d')")
    case True
    with edge show ?thesis by blast
  next
    case False
    with edge.prems have "e = mk_edge s t ty"
      by (auto simp: insertEdge_def split: if_splits)
    with False edge.hyps show ?thesis
      by (auto simp: mk_edge_def)
  qed
qed

lemma hub_no_edge_at_o:
  "\<not> list_ex (\<lambda>e. source e = ''o'') (edges hub_db)"
  "\<not> list_ex (\<lambda>e. target e = ''o'') (edges hub_db)"
proof -
  show "\<not> list_ex (\<lambda>e. source e = ''o'') (edges hub_db)"
  proof
    assume "list_ex (\<lambda>e. source e = ''o'') (edges hub_db)"
    then obtain e where "e \<in> set (edges hub_db)" "source e = ''o''"
      unfolding list_ex_iff by (rule bexE)
    with hub_without_o[of e] show False by simp
  qed
  show "\<not> list_ex (\<lambda>e. target e = ''o'') (edges hub_db)"
  proof
    assume "list_ex (\<lambda>e. target e = ''o'') (edges hub_db)"
    then obtain e where "e \<in> set (edges hub_db)" "target e = ''o''"
      unfolding list_ex_iff by (rule bexE)
    with hub_without_o[of e] show False by simp
  qed
qed

lemma hub_edge_at_T: "list_ex (\<lambda>e. target e = ''T'') (edges hub_db)"
  unfolding list_ex_iff
  by (rule bexI[where x = "mk_edge ''S'' ''T'' ''CITES''" and P = "\<lambda>e. target e = ''T''"])
    (simp add: mk_edge_def, rule hub_first)

lemma edges_semantic: "edges semantic_db = edges hub_db"
  by (simp add: semantic_db_def)

lemma nodes_semantic: "nodes semantic_db = [embedded_node ''o'', embedded_node ''T'']"
  by (simp add: semantic_db_def)

lemma orphans_semantic: "orphans semantic_db = [embedded_node ''o'']"
  unfolding orphans_def edges_semantic nodes_semantic
  using hub_no_edge_at_o hub_edge_at_T
  by (simp add: embedded_node_def blank_node_def)

lemma valid_semantic: "validMatches semantic_db ''o'' [1] =
   [\<lparr>sim_id = ''T'', sim_label = ''T'', sim_score = 1\<rparr>]"
  by (simp add: validMatches_def findSimilar_def semantic_db_def embedded_node_def blank_node_def
     similar_row_def truthy_def or_else_def slice0_def)

lemma semantic_rejected: "\<not> allowed (check semantic_db ''o'' ''T'' 50)"
proof -
  have "isSuperNode semantic_db ''T'' 50"
    using hub_super by (simp add: isSuperNode_def edges_semantic)
  moreover have "\<not> sharesNeighbor semantic_db ''o'' ''T''"
  proof
    assume "sharesNeighbor semantic_db ''o'' ''T''"
    then have "\<exists>e1 \<in> set (edges hub_db). \<exists>e2 \<in> set (edges hub_db).
        join_cond ''o'' ''T'' e1 e2"
      by (simp add: sharesNeighbor_def edges_semantic list_ex_iff)
    then obtain e1 e2 where e1: "e1 \<in> set (edges hub_db)"
      and "join_cond ''o'' ''T'' e1 e2"
      by blast
    then have "source e1 = ''o'' \<or> target e1 = ''o''" by (simp add: join_cond_def)
    with hub_without_o[OF e1] show False by simp
  qed
  ultimately show ?thesis by (simp add: check_def)
qed

text \<open>
  C1 as stated fails for SemanticWeaver. In \<open>semantic_db\<close> the node \<open>o\<close> is an orphan
  with an embedding and its best match is the hub \<open>T\<close>, which has 51 edges and shares
  no neighbour with \<open>o\<close>: \<open>LouvainGate.check\<close> rejects the edge, and
  \<open>SemanticWeaver.weave\<close> inserts it.
\<close>

theorem semantic_weaver_bypasses_gate:
  "\<not> allowed (check semantic_db ''o'' ''T'' 50)
   \<and> mk_edge ''o'' ''T'' ''RELATED_TO'' \<notin> set (edges semantic_db)
   \<and> edges (SemanticWeaver_weave semantic_db)
      = edges semantic_db @ [mk_edge ''o'' ''T'' ''RELATED_TO'']"
proof -
  have e: "edges semantic_db = edges hub_db" by (simp add: semantic_db_def)
  have new: "mk_edge ''o'' ''T'' ''RELATED_TO'' \<notin> set (edges semantic_db)"
    unfolding e using hub_without_o[of "mk_edge ''o'' ''T'' ''RELATED_TO''"]
    by (auto simp: mk_edge_def)
  have "rescue (embedded_node ''o'') semantic_db
      = insertEdge semantic_db ''o'' ''T'' ''RELATED_TO''"
    using valid_semantic by (simp add: rescue_def embedded_node_def blank_node_def)
  with new have "edges (SemanticWeaver_weave semantic_db)
      = edges semantic_db @ [mk_edge ''o'' ''T'' ''RELATED_TO'']"
    by (simp add: SemanticWeaver_weave_def orphans_semantic insertEdge_def)
  with new semantic_rejected show ?thesis by simp
qed

text \<open>
  C1 amended: the edges of EdgeWeaver (\<open>weave\<close>, also when \<open>processBox\<close> calls it for the
  boxes of the files) and of \<open>ingestCDA\<close> are inserted only after \<open>LouvainGate.check\<close>
  admitted them in the state of the insertion; SemanticWeaver inserts the edge from an
  orphan to its best valid match without asking the gate.
\<close>

theorem gated_insertions:
  "admitted d (weave w d s c)
   \<and> admitted d (ingestCDA d entries)
   \<and> admitted (store st) (store (fst (processFiles sv w st files)))
   \<and> (embedding orphan = Some vec \<and> validMatches d (node_id orphan) vec = best # others \<longrightarrow>
        rescue orphan d = insertEdge d (node_id orphan) (sim_id best) ''RELATED_TO'')"
  by (simp add: admitted_weave admitted_ingestCDA admitted_processFiles rescue_def)

theorem gated_insertions_witness:
  "embedding (embedded_node ''o'') = Some [1]
   \<and> validMatches semantic_db (node_id (embedded_node ''o'')) [1]
       = [\<lparr>sim_id = ''T'', sim_label = ''T'', sim_score = 1\<rparr>]
   \<and> rescue (embedded_node ''o'') semantic_db = insertEdge semantic_db ''o'' ''T'' ''RELATED_TO''
   \<and> admitted semantic_db (weave demo_weaver semantic_db ''o'' ''text'')"
proof -
  have e: "embedding (embedded_node ''o'') = Some [1]"
    and i: "node_id (embedded_node ''o'') = ''o''"
    by (simp_all add: embedded_node_def blank_node_def)
  from gated_insertions[of semantic_db demo_weaver "''o''" "''text''" "[]" empty_state
      demo_services "[]" "embedded_node ''o''" "[1]"
      "\<lparr>sim_id = ''T'', sim_label = ''T'', sim_score = 1\<rparr>" "[]"]
    e i valid_semantic
  show ?thesis by simp
qed

section \<open>The sample file, ingested\<close>



lemma plain_ingested:
  "ingested_state =
     processBox demo_services demo_weaver empty_state ''my-note'' (file_content plain_file)
       ''document'' [] ''notes/My Note.md''"
proof -
  have s: "file_slug (basename ''notes/My Note.md'') = ''my-note''"
    by (simp add: basename_def file_slug_def toLowerCase_def slug_char_def in_range_def
        lower_char_def)
  have b: "basename ''notes/My Note.md'' \<noteq> []" by (simp add: basename_def)
  have f: "frontmatter (file_content plain_file) = []"
    by (simp add: frontmatter_def plain_file_def)
  have l: "length (file_content plain_file) > 10" by (simp add: plain_file_def)
  have p: "file_path plain_file = ''notes/My Note.md''" "file_type plain_file = ''document''"
    by (simp_all add: plain_file_def)
  show ?thesis
    unfolding ingested_state_def processFile_plain[OF plain_no_marker]
    using s b f l p by simp
qed

lemma demo_md5_nonempty: "\<forall>x. md5 demo_services x \<noteq> []"
  by (simp add: demo_services_def)

lemma plain_boxes: "file_boxes plain_file = [(''my-note'', file_content plain_file)]"
proof -
  have s: "file_slug (basename ''notes/My Note.md'') = ''my-note''"
    by (simp add: basename_def file_slug_def toLowerCase_def slug_char_def in_range_def
        lower_char_def)
  have b: "basename ''notes/My Note.md'' \<noteq> []" by (simp add: basename_def)
  have l: "length (file_content plain_file) > 10" by (simp add: plain_file_def)
  have p: "file_path plain_file = ''notes/My Note.md''" by (simp add: plain_file_def)
  show ?thesis
    using no_marker_no_match[OF plain_no_marker] s b l p
    by (simp add: file_boxes_def box_matches_def)
qed

lemma ingested_hash:
  "getNodeHash (store ingested_state) ''my-note''
     = Some (hashContent demo_services (file_content plain_file))"
  unfolding plain_ingested by (rule processBox_stores_hash[OF demo_md5_nonempty])

section \<open>The claims on hashes, change detection and marker-free files\<close>




text \<open>
  C9 as stated fails for short files: a file without markers of at most 10 characters
  is not a box at all, \<open>processBox\<close> is not called on it.
\<close>

theorem short_file_makes_no_box: "\<not> has_locus_marker (file_content tiny_file)
   \<and> processFile demo_services demo_weaver empty_state tiny_file = (empty_state, 0)
   \<and> processBox demo_services demo_weaver empty_state ''a'' (file_content tiny_file)
        (file_type tiny_file) (frontmatter (file_content tiny_file)) (file_path tiny_file)
      \<noteq> empty_state"
proof -
  have "nodes (store (processBox demo_services demo_weaver empty_state ''a'' (file_content tiny_file)
        (file_type tiny_file) (frontmatter (file_content tiny_file)) (file_path tiny_file))) \<noteq> []"
    by (simp add: processBox_def Let_def nodes_weave insertNode_def getNodeHash_def
        empty_state_def empty_db_def)
  then have "processBox demo_services demo_weaver empty_state ''a'' (file_content tiny_file)
        (file_type tiny_file) (frontmatter (file_content tiny_file)) (file_path tiny_file)
      \<noteq> empty_state"
    by (auto simp: empty_state_def empty_db_def)
  with processFile_plain[OF tiny_no_marker, of demo_services demo_weaver empty_state] tiny_no_marker
  show ?thesis by (simp add: tiny_file_def)
qed

text \<open>
  C9 amended: a file without a locus marker and with more than 10 characters is one
  box, its whole content, whose id is the slug of the file name (the name without its
  first \<open>.md\<close>, in lower case, every character outside \<open>[a-z0-9-]\<close> replaced by \<open>-\<close>),
  and \<open>processBox\<close> processes it as it does a box between markers; a shorter file
  yields no box.
\<close>

theorem processFile_without_markers:
  assumes "\<not> has_locus_marker (file_content f)"
  shows "processFile sv w st f =
     (if length (file_content f) > 10
      then (processBox sv w st
              (file_slug (if basename (file_path f) = [] then ''unknown''
                          else basename (file_path f)))
              (file_content f) (file_type f) (frontmatter (file_content f)) (file_path f),
            length (file_content f))
      else (st, 0))"
  using assms by (rule processFile_plain)

theorem processFile_without_markers_witness:
  "\<not> has_locus_marker (file_content plain_file)
   \<and> length (file_content plain_file) > 10
   \<and> processFile demo_services demo_weaver empty_state plain_file
      = (processBox demo_services demo_weaver empty_state ''my-note'' (file_content plain_file)
           ''document'' [] ''notes/My Note.md'', 26)
   \<and> map node_id (nodes (store (fst (processFile demo_services demo_weaver empty_state plain_file))))
      = [''my-note'']"
proof -
  have s: "file_slug (basename ''notes/My Note.md'') = ''my-note''"
    by (simp add: basename_def file_slug_def toLowerCase_def slug_char_def in_range_def
        lower_char_def)
  have b: "basename ''notes/My Note.md'' \<noteq> []" by (simp add: basename_def)
  have f: "frontmatter (file_content plain_file) = []"
    by (simp add: frontmatter_def plain_file_def)
  have l: "length (file_content plain_file) = 26" by (simp add: plain_file_def)
  have p: "file_path plain_file = ''notes/My Note.md''" "file_type plain_file = ''document''"
    by (simp_all add: plain_file_def)
  have eq: "processFile demo_services demo_weaver empty_state plain_file
      = (processBox demo_services demo_weaver empty_state ''my-note'' (file_content plain_file)
           ''document'' [] ''notes/My Note.md'', 26)"
    using processFile_without_markers[OF plain_no_marker, of demo_services demo_weaver empty_state] s b f l p
    by simp
  have n: "map node_id (nodes (store (processBox demo_services demo_weaver empty_state ''my-note''
      (file_content plain_file) ''document'' [] ''notes/My Note.md''))) = [''my-note'']"
    by (simp add: processBox_def Let_def nodes_weave insertNode_def node_row_def getNodeHash_def
        empty_state_def empty_db_def)
  from eq n l plain_no_marker show ?thesis by simp
qed

section \<open>BentoBoxer: a thematic break between oversized blocks\<close>

lemma words_set: "set (many_words n) \<subseteq> {CHR ''a'', CHR '' ''}"
  by (induction n) (auto simp: many_words_def)

lemma words_Cons: "many_words n = CHR ''a'' # tl (many_words n)"
  by (cases n) (auto simp: many_words_def)

lemma words_last: "last (many_words n) = CHR ''a''" and words_nonempty: "many_words n \<noteq> []"
  by (simp_all add: many_words_def)

lemma words_hd: "hd (many_words n) = CHR ''a''"
  by (subst words_Cons) simp

lemma words_runs: "space_runs b (many_words n @ xs) = n + space_runs False xs"
  by (induction n arbitrary: b) (auto simp: many_words_def js_space_def)

lemma words_collapse: "collapse b (many_words n @ xs) = many_words n @ collapse False xs"
  by (induction n arbitrary: b) (auto simp: many_words_def js_space_def)

lemma split_on_none: "sep \<notin> set xs \<Longrightarrow> split_on sep xs = [xs]"
  by (induction xs) auto

lemma split_on_first: "sep \<notin> set xs \<Longrightarrow> split_on sep (xs @ sep # ys) = xs # split_on sep ys"
  by (induction xs) auto

lemma strip_skip:
  "opn \<noteq> [] \<Longrightarrow> hd opn \<notin> set xs \<Longrightarrow>
     strip_comments opn (xs @ ys) = xs @ strip_comments opn ys"
proof (induction xs)
  case Nil
  then show ?case by simp
next
  case (Cons x xs)
  then have "\<not> prefix opn (x # xs @ ys)"
    by (cases opn) auto
  with Cons show ?case
    by (subst strip_comments.simps) simp
qed

lemma trim_core:
  assumes "s \<noteq> []" "\<not> js_space (hd s)" "\<not> js_space (last s)" "list_all js_space ws"
  shows "trim (s @ ws) = s"
proof -
  from assms(1,2) have a: "dropWhile js_space (s @ ws) = s @ ws"
    by (cases s) auto
  from assms(4) have b: "dropWhile js_space (rev ws @ rev s) = dropWhile js_space (rev s)"
    by (intro dropWhile_append2) (simp add: list_all_iff)
  from assms(1,3) have c: "dropWhile js_space (rev s) = rev s"
    by (cases s rule: rev_cases) auto
  show ?thesis by (simp add: trim_def a b c)
qed

lemma words_not_space_ends: "\<not> js_space (hd (many_words n))" "\<not> js_space (last (many_words n))"
  by (simp_all add: words_hd words_last js_space_def)

lemma broken_parse:
  "toy_parse (broken_text n) =
     [MdNode ''paragraph'' None (Some (many_words n)) [], MdNode ''thematicBreak'' None None [],
      MdNode ''paragraph'' None (Some ''b'') []]"
proof -
  have nl: "CHR 0x0A \<notin> set (many_words n)" using words_set[of n] by auto
  have "split_on CHR 0x0A (broken_text n) = [many_words n, [], ''***'', [], ''b'']"
    unfolding broken_text_def using split_on_first[OF nl] by simp
  then have "para_blocks [] (split_on CHR 0x0A (broken_text n)) = [many_words n, ''***'', ''b'']"
    using words_nonempty[of n] by simp
  moreover have "toy_node (many_words n) = MdNode ''paragraph'' None (Some (many_words n)) []"
    by (subst (1 2) words_Cons) (simp add: toy_node_def)
  ultimately show ?thesis by (simp add: toy_parse_def toy_node_def)
qed

lemma broken_left:
  "packageContent (toy_boxer n) [MdNode ''paragraph'' None (Some (many_words n)) []]
     = [createBox (toy_boxer n) (many_words n) (n + 1)]"
proof -
  have t: "trim (many_words n @ [CHR 0x0A]) = many_words n"
    by (rule trim_core) (simp_all add: words_nonempty words_hd words_last js_space_def)
  have c: "countTokens (many_words n) = n + 1"
    using words_runs[of False n "[]"] by (simp add: countTokens_def)
  show ?thesis
    by (subst packageContent.simps)
      (simp add: toy_boxer_def toy_stringify_def toy_source_def is_break_def t c hrIndex_def)
qed

lemma broken_right:
  "packageContent (toy_boxer n) [MdNode ''paragraph'' None (Some ''b'') []]
     = [createBox (toy_boxer n) ''b'' 1]"
proof -
  have t: "trim (''b'' @ [CHR 0x0A]) = ''b''"
    by (rule trim_core) (simp_all add: js_space_def)
  have c: "countTokens ''b'' = 1" by (simp add: countTokens_def js_space_def)
  have s: "trim (stringify (proc (toy_boxer n)) [MdNode ''paragraph'' None (Some ''b'') []]) = ''b''"
    using t by (simp add: toy_boxer_def toy_stringify_def toy_source_def is_break_def)
  show ?thesis
    by (subst packageContent.simps) (simp add: s c hrIndex_def is_break_def Let_def)
qed

lemma broken_boxes:
  "process (toy_boxer n) (broken_text n)
     = [createBox (toy_boxer n) (many_words n) (n + 1), createBox (toy_boxer n) ''b'' 1]"
proof -
  let ?pw = "MdNode ''paragraph'' None (Some (many_words n)) []"
  let ?hr = "MdNode ''thematicBreak'' None None []"
  let ?pb = "MdNode ''paragraph'' None (Some ''b'') []"
  let ?tail = "[CHR 0x0A, CHR 0x0A] @ ''***'' @ [CHR 0x0A, CHR 0x0A] @ ''b''"
  have tt: "trim (broken_text n) = broken_text n"
    using trim_core[of "broken_text n" "[]"]
    by (simp add: broken_text_def words_nonempty js_space_def hd_append words_hd)
  have ne: "trim (broken_text n) \<noteq> []" unfolding tt by (simp add: broken_text_def)
  have t: "trim ((many_words n @ ?tail) @ [CHR 0x0A]) = many_words n @ ?tail"
    by (rule trim_core) (simp_all add: words_nonempty js_space_def hd_append words_hd)
  have c: "countTokens (many_words n @ ?tail) = n + 3"
    using words_runs[of False n ?tail] by (simp add: countTokens_def js_space_def)
  have hr: "hrIndex [?pw, ?hr, ?pb] = Some 1"
    by (simp add: hrIndex_def is_break_def)
  have whole: "packageContent (toy_boxer n) [?pw, ?hr, ?pb]
      = packageContent (toy_boxer n) [?pw] @ packageContent (toy_boxer n) [?pb]"
    using t c
    by (subst packageContent.simps)
      (simp add: toy_boxer_def toy_stringify_def toy_source_def is_break_def hr)
  have loop: "fold (process_step (toy_boxer n)) [?pw, ?hr, ?pb] ([], []) = ([], [?pw, ?hr, ?pb])"
    by (simp add: process_step_def splits_here_def)
  have pr: "parse (proc (toy_boxer n)) = toy_parse" by (simp add: toy_boxer_def)
  show ?thesis
    unfolding process_def pr broken_parse loop
    using ne by (simp add: whole broken_left broken_right)
qed


lemma dropWhile_keep: "s \<noteq> [] \<Longrightarrow> \<not> P (hd s) \<Longrightarrow> dropWhile P (s @ t) = s @ t"
  by (cases s) auto

lemma trim_leading: "list_all js_space ws \<Longrightarrow> trim (ws @ s) = trim s"
proof -
  assume "list_all js_space ws"
  then have "dropWhile js_space (ws @ s) = dropWhile js_space s"
    by (intro dropWhile_append2) (simp add: list_all_iff)
  then show ?thesis by (simp add: trim_def)
qed

lemma boxed_broken:
  "boxed_text (toy_boxer n) (broken_text n)
     = ''<!-- locus:0000 -->'' @ [CHR 0x0A] @ many_words n @ [CHR 0x0A, CHR 0x0A]
       @ ''<!-- locus:0000 -->'' @ [CHR 0x0A] @ ''b''"
  unfolding boxed_text_def broken_boxes
  by (simp add: assembleBox_def createBox_def toy_boxer_def)

lemma stripped_broken:
  "strip_comments ''<!-- tags:'' (strip_comments ''<!-- locus:''
      (''<!-- locus:0000 -->'' @ [CHR 0x0A] @ many_words n @ [CHR 0x0A, CHR 0x0A]
       @ ''<!-- locus:0000 -->'' @ [CHR 0x0A] @ ''b''))
   = [CHR 0x0A] @ many_words n @ [CHR 0x0A, CHR 0x0A, CHR 0x0A] @ ''b''"
proof -
  have lt: "CHR ''<'' \<notin> set ([CHR 0x0A] @ many_words n)" using words_set[of n] by auto
  have tail1: "strip_comments ''<!-- locus:'' ([CHR 0x0A, CHR 0x0A] @ ''<!-- locus:0000 -->'' @ [CHR 0x0A] @ ''b'')
      = [CHR 0x0A, CHR 0x0A, CHR 0x0A] @ ''b''"
    by code_simp
  have tail2: "strip_comments ''<!-- tags:'' ([CHR 0x0A, CHR 0x0A, CHR 0x0A] @ ''b'')
      = [CHR 0x0A, CHR 0x0A, CHR 0x0A] @ ''b''"
    by code_simp
  have first: "strip_comments ''<!-- locus:'' (''<!-- locus:0000 -->'' @ rest)
      = strip_comments ''<!-- locus:'' rest" for rest
    by (subst strip_comments.simps) simp
  have "strip_comments ''<!-- locus:''
      (''<!-- locus:0000 -->'' @ ([CHR 0x0A] @ many_words n) @ [CHR 0x0A, CHR 0x0A]
       @ ''<!-- locus:0000 -->'' @ [CHR 0x0A] @ ''b'')
     = ([CHR 0x0A] @ many_words n) @ [CHR 0x0A, CHR 0x0A, CHR 0x0A] @ ''b''"
    unfolding first using strip_skip[of "''<!-- locus:''" "[CHR 0x0A] @ many_words n"] lt tail1
    by simp
  moreover have "strip_comments ''<!-- tags:''
      (([CHR 0x0A] @ many_words n) @ [CHR 0x0A, CHR 0x0A, CHR 0x0A] @ ''b'')
     = ([CHR 0x0A] @ many_words n) @ [CHR 0x0A, CHR 0x0A, CHR 0x0A] @ ''b''"
    using strip_skip[of "''<!-- tags:''" "[CHR 0x0A] @ many_words n"] lt tail2 by simp
  ultimately show ?thesis by simp
qed

lemma broken_audit_fails: "\<not> audit_passes (broken_text n) (boxed_text (toy_boxer n) (broken_text n))"
proof -
  let ?nl = "CHR 0x0A"
  have ts: "trim (broken_text n) = broken_text n"
    using trim_core[of "broken_text n" "[]"]
    by (simp add: broken_text_def words_nonempty js_space_def hd_append words_hd)
  have tb: "trim (boxed_text (toy_boxer n) (broken_text n)) = boxed_text (toy_boxer n) (broken_text n)"
    unfolding boxed_broken
    using trim_core[of "''<!-- locus:0000 -->'' @ [CHR 0x0A] @ many_words n @ [CHR 0x0A, CHR 0x0A]
       @ ''<!-- locus:0000 -->'' @ [CHR 0x0A] @ ''b''" "[]"]
    by (simp add: js_space_def)
  have tstr: "trim ([?nl] @ many_words n @ [?nl, ?nl, ?nl] @ ''b'') = many_words n @ [?nl, ?nl, ?nl] @ ''b''"
  proof -
    have "trim ([?nl] @ many_words n @ [?nl, ?nl, ?nl] @ ''b'')
        = trim (many_words n @ [?nl, ?nl, ?nl] @ ''b'')"
      by (rule trim_leading) (simp add: js_space_def)
    also have "\<dots> = many_words n @ [?nl, ?nl, ?nl] @ ''b''"
      using trim_core[of "many_words n @ [?nl, ?nl, ?nl] @ ''b''" "[]"]
      by (simp add: words_nonempty js_space_def hd_append words_hd)
    finally show ?thesis .
  qed
  have n1: "normalize (broken_text n) = many_words n @ '' *** b''"
    unfolding normalize_def broken_text_def words_collapse by (simp add: js_space_def)
  have n2: "normalize (many_words n @ [?nl, ?nl, ?nl] @ ''b'') = many_words n @ '' b''"
    unfolding normalize_def words_collapse by (simp add: js_space_def)
  show ?thesis
    unfolding audit_passes_def Let_def ts tb
    unfolding boxed_broken stripped_broken tstr n1 n2
    by simp
qed

text \<open>
  C4 as stated fails. For every budget \<open>n\<close> the document \<open>broken_text n\<close> is one group
  of \<open>n + 3\<close> tokens; \<open>packageContent\<close> splits it at the thematic break and leaves the
  break out, so the boxes are the two paragraphs and the audit comparison fails (here
  for a budget of 400 tokens).
\<close>

theorem thematic_break_is_dropped:
  "map box_content (process (toy_boxer 400) (broken_text 400)) = [many_words 400, ''b'']
   \<and> \<not> audit_passes (broken_text 400) (boxed_text (toy_boxer 400) (broken_text 400))"
  using broken_audit_fails[of 400] by (simp add: broken_boxes createBox_def)

section \<open>BentoBoxer: the blocks behind the boxes\<close>

lemma hrIndex_break: "hrIndex ns = Some k \<Longrightarrow> is_break (ns ! k)"
proof -
  assume h: "hrIndex ns = Some k"
  then have k: "k = length (takeWhile (\<lambda>n. \<not> is_break n) ns)"
    by (auto simp: hrIndex_def split: if_splits)
  from hrIndex_less[OF h] k
  have "\<not> \<not> is_break (ns ! length (takeWhile (\<lambda>n. \<not> is_break n) ns))"
    by (intro nth_length_takeWhile) simp
  with k show ?thesis by simp
qed

lemma hrIndex_none: "\<not> list_ex is_break ns \<Longrightarrow> hrIndex ns = None"
  by (simp add: hrIndex_def)

lemma packageContent_fracture:
  "map box_content (packageContent bx ns) = map (\<lambda>g. trim (stringify (proc bx) g)) (fracture bx ns)"
proof (induction bx ns rule: fracture.induct)
  case (1 bx ns)
  show ?case
  proof (cases "countTokens (trim (stringify (proc bx) ns)) \<le> max_size bx")
    case True
    then show ?thesis
      by (subst packageContent.simps, subst fracture.simps) (simp add: createBox_def Let_def)
  next
    case False
    show ?thesis
    proof (cases "hrIndex ns")
      case None
      show ?thesis
      proof (cases "length ns > 1")
        case True
        from "1.IH"(1)[OF False None True] "1.IH"(2)[OF False None True] False None True
        show ?thesis
          by (subst packageContent.simps, subst fracture.simps) (simp add: Let_def)
      next
        case l: False
        with False None show ?thesis
          by (subst packageContent.simps, subst fracture.simps) (simp add: createBox_def Let_def)
      qed
    next
      case (Some k)
      from "1.IH"(3)[OF False Some] "1.IH"(4)[OF False Some] False Some
      show ?thesis
        by (subst packageContent.simps, subst fracture.simps) (simp add: Let_def)
    qed
  qed
qed

lemma fracture_keeps_blocks:
  "filter not_break (concat (fracture bx ns)) = filter not_break ns"
proof (induction bx ns rule: fracture.induct)
  case (1 bx ns)
  show ?case
  proof (cases "countTokens (trim (stringify (proc bx) ns)) \<le> max_size bx")
    case True
    then show ?thesis by (subst fracture.simps) simp
  next
    case False
    show ?thesis
    proof (cases "hrIndex ns")
      case None
      show ?thesis
      proof (cases "length ns > 1")
        case True
        have "filter not_break (take (length ns div 2) ns) @ filter not_break (drop (length ns div 2) ns)
            = filter not_break ns"
          by (simp flip: filter_append)
        with "1.IH"(1)[OF False None True] "1.IH"(2)[OF False None True] False None True
        show ?thesis by (subst fracture.simps) simp
      next
        case l: False
        with False None show ?thesis by (subst fracture.simps) simp
      qed
    next
      case (Some k)
      from hrIndex_less[OF Some] have "ns = take k ns @ ns ! k # drop (k + 1) ns"
        by (simp add: id_take_nth_drop)
      then have "filter not_break ns
          = filter not_break (take k ns) @ filter not_break (ns ! k # drop (k + 1) ns)"
        by (metis filter_append)
      with hrIndex_break[OF Some]
      have "filter not_break (take k ns) @ filter not_break (drop (k + 1) ns) = filter not_break ns"
        by (simp add: not_break_def)
      with "1.IH"(3)[OF False Some] "1.IH"(4)[OF False Some] False Some
      show ?thesis by (subst fracture.simps) simp
    qed
  qed
qed

lemma fracture_without_breaks:
  "\<not> list_ex is_break ns \<Longrightarrow> concat (fracture bx ns) = ns"
proof (induction bx ns rule: fracture.induct)
  case (1 bx ns)
  note none = hrIndex_none[OF "1.prems"]
  show ?case
  proof (cases "countTokens (trim (stringify (proc bx) ns)) \<le> max_size bx")
    case True
    then show ?thesis by (subst fracture.simps) simp
  next
    case False
    show ?thesis
    proof (cases "length ns > 1")
      case True
      from "1.prems" have a: "\<not> list_ex is_break (take (length ns div 2) ns)"
        and b: "\<not> list_ex is_break (drop (length ns div 2) ns)"
        by (auto simp: list_ex_iff dest: in_set_takeD in_set_dropD)
      from "1.IH"(1)[OF False none True a] "1.IH"(2)[OF False none True b] False none True
      show ?thesis by (subst fracture.simps) simp
    next
      case l: False
      with False none show ?thesis by (subst fracture.simps) simp
    qed
  qed
qed

lemma group_fold:
  "fold group_step ns (g, c) = (g', c') \<Longrightarrow> concat g' @ c' = concat g @ c @ ns"
proof (induction ns arbitrary: g c)
  case Nil
  then show ?case by simp
next
  case (Cons n ns)
  obtain g1 c1 where s: "group_step n (g, c) = (g1, c1)" by (cases "group_step n (g, c)")
  then have "concat g1 @ c1 = concat g @ c @ [n]"
    by (auto simp: group_step_def split: if_splits)
  moreover from Cons.prems s have "fold group_step ns (g1, c1) = (g', c')" by simp
  from Cons.IH[OF this] have "concat g' @ c' = concat g1 @ c1 @ ns" .
  ultimately show ?case by simp
qed

lemma concat_sections: "concat (sections ns) = ns"
proof -
  obtain g c where f: "fold group_step ns ([], []) = (g, c)"
    by (cases "fold group_step ns ([], [])")
  from group_fold[OF f] show ?thesis by (auto simp add: sections_def f)
qed

lemma process_fold:
  "fold group_step ns (g, c) = (g', c') \<Longrightarrow>
     fold (process_step bx) ns (concat (map (packageContent bx) g), c)
       = (concat (map (packageContent bx) g'), c')"
proof (induction ns arbitrary: g c)
  case Nil
  then show ?case by simp
next
  case (Cons n ns)
  obtain g1 c1 where s: "group_step n (g, c) = (g1, c1)" by (cases "group_step n (g, c)")
  then have p: "process_step bx n (concat (map (packageContent bx) g), c)
      = (concat (map (packageContent bx) g1), c1)"
    by (auto simp: group_step_def process_step_def split: if_splits)
  from Cons.prems s have "fold group_step ns (g1, c1) = (g', c')" by simp
  from Cons.IH[OF this] p show ?case by simp
qed

lemma process_sections:
  "trim text \<noteq> [] \<Longrightarrow>
     process bx text = concat (map (packageContent bx) (sections (parse (proc bx) text)))"
proof -
  assume ne: "trim text \<noteq> []"
  obtain g c where f: "fold group_step (parse (proc bx) text) ([], []) = (g, c)"
    by (cases "fold group_step (parse (proc bx) text) ([], [])")
  from process_fold[OF f, of bx] ne show ?thesis
    by (simp add: process_def sections_def f)
qed

lemma process_groups:
  "trim text \<noteq> [] \<Longrightarrow>
     map box_content (process bx text)
       = map (\<lambda>g. trim (stringify (proc bx) g)) (box_groups bx (parse (proc bx) text))"
proof -
  assume ne: "trim text \<noteq> []"
  have "(map box_content \<circ> packageContent bx)
      = (map (\<lambda>g. trim (stringify (proc bx) g)) \<circ> fracture bx)"
    by (rule ext) (simp add: packageContent_fracture)
  then show ?thesis
    by (simp add: process_sections[OF ne] box_groups_def map_concat)
qed

lemma groups_keep_blocks: "filter not_break (concat (box_groups bx ns)) = filter not_break ns"
proof -
  have "filter not_break (concat (concat (map (fracture bx) gs))) = filter not_break (concat gs)" for gs
    by (induction gs) (auto simp: fracture_keeps_blocks)
  then show ?thesis by (simp add: box_groups_def concat_sections)
qed

lemma groups_without_breaks:
  "\<not> list_ex is_break ns \<Longrightarrow> concat (box_groups bx ns) = ns"
proof -
  have "\<forall>g \<in> set gs. \<not> list_ex is_break g \<Longrightarrow> concat (concat (map (fracture bx) gs)) = concat gs" for gs
    by (induction gs) (auto simp: fracture_without_breaks)
  moreover assume "\<not> list_ex is_break ns"
  then have "\<forall>g \<in> set (sections ns). \<not> list_ex is_break g"
    using concat_sections[of ns] by (metis (no_types, lifting) list_ex_iff set_concat UN_I)
  ultimately show ?thesis by (simp add: box_groups_def concat_sections)
qed

text \<open>
  C4 amended: the contents of the boxes of \<open>process\<close> are, in order, the trimmed
  serialisations of groups of the top-level blocks of the parsed text; every top-level
  block that is not a thematic break is in exactly one group, in the order of the
  document, and without a top-level thematic break the groups are the document. (A
  thematic break at which an oversized group is split is in no group.)
\<close>

theorem boxes_keep_blocks:
  "(trim md = [] \<longrightarrow> process bx md = [])
   \<and> (trim md \<noteq> [] \<longrightarrow>
        map box_content (process bx md)
          = map (\<lambda>g. trim (stringify (proc bx) g)) (box_groups bx (parse (proc bx) md)))
   \<and> filter not_break (concat (box_groups bx ns)) = filter not_break ns
   \<and> (\<not> list_ex is_break ns \<longrightarrow> concat (box_groups bx ns) = ns)"
  using process_groups[of md bx] groups_keep_blocks[of bx ns] groups_without_breaks[of ns bx]
  by (simp add: process_def)

theorem boxes_keep_blocks_witness:
  "trim (broken_text 3) \<noteq> []
   \<and> map box_content (process (toy_boxer 3) (broken_text 3)) = [''a a a a'', ''b'']
   \<and> map (\<lambda>g. trim (stringify (proc (toy_boxer 3)) g))
        (box_groups (toy_boxer 3) (parse (proc (toy_boxer 3)) (broken_text 3)))
      = [''a a a a'', ''b'']
   \<and> \<not> list_ex is_break [MdNode ''paragraph'' None (Some ''b'') []]
   \<and> concat (box_groups (toy_boxer 3) [MdNode ''paragraph'' None (Some ''b'') []])
      = [MdNode ''paragraph'' None (Some ''b'') []]"
proof -
  have w: "many_words 3 = ''a a a a''"
    by (simp add: many_words_def eval_nat_numeral)
  have ne: "trim (broken_text 3) \<noteq> []"
    using trim_core[of "broken_text 3" "[]"]
    by (simp add: broken_text_def words_nonempty js_space_def hd_append words_hd)
  have b: "map box_content (process (toy_boxer 3) (broken_text 3)) = [''a a a a'', ''b'']"
    by (simp add: broken_boxes createBox_def w)
  have nb: "\<not> list_ex is_break [MdNode ''paragraph'' None (Some ''b'') []]"
    by (simp add: is_break_def)
  from boxes_keep_blocks[of "broken_text 3" "toy_boxer 3" "[MdNode ''paragraph'' None (Some ''b'') []]"]
    ne b nb
  show ?thesis by simp
qed

section \<open>Processing the same files again\<close>

lemma find_filter_other:
  "i \<noteq> j \<Longrightarrow> node_id y = j \<Longrightarrow>
     find (\<lambda>r. node_id r = i) (filter (\<lambda>r. node_id r \<noteq> j) xs @ [y]) = find (\<lambda>r. node_id r = i) xs"
  by (induction xs) auto

lemma processBox_other_hash:
  assumes "i \<noteq> j"
  shows "getNodeHash (store (processBox sv w st j c ty fm p)) i = getNodeHash (store st) i"
proof (cases "getNodeHash (store st) j = Some (hashContent sv c)")
  case True
  then show ?thesis by (simp add: processBox_def Let_def)
next
  case False
  have "getNodeHash (insertNode d n) i = getNodeHash d i" if "n_id n = j" for d n
    using find_filter_other[OF assms, of "node_row n" "nodes d"] that
    by (simp add: getNodeHash_def insertNode_def node_row_def)
  with False show ?thesis
    by (simp add: processBox_def Let_def getNodeHash_weave)
qed

text \<open>The loop over the files as one loop over the boxes of all files.\<close>

lemma processFiles_tasks:
  "fst (processFiles sv w st files)
     = fold (\<lambda>(f, b) s. processBox sv w s (fst b) (snd b) (file_type f)
              (frontmatter (file_content f)) (file_path f))
         (concat (map (\<lambda>f. map (Pair f) (file_boxes f)) files)) st"
  unfolding processFiles_fst
proof (induction files arbitrary: st)
  case Nil
  then show ?case by simp
next
  case (Cons f fs)
  have "fold (\<lambda>(i, c) s. processBox sv w s i c ty fm p) bs s0
      = fold (\<lambda>(f, b) s. processBox sv w s (fst b) (snd b) (file_type f)
              (frontmatter (file_content f)) (file_path f)) (map (Pair f) bs) s0"
    if "ty = file_type f" "fm = frontmatter (file_content f)" "p = file_path f" for bs s0 ty fm p
    using that by (induction bs arbitrary: s0) auto
  with Cons.IH show ?case by (simp add: processFile_boxes)
qed

lemma tasks_store_hashes:
  assumes "\<forall>x. md5 sv x \<noteq> []"
  shows "distinct (map (\<lambda>t. fst (snd t)) ts) \<Longrightarrow> t \<in> set ts \<Longrightarrow>
     getNodeHash (store (fold (\<lambda>(f, b) s. processBox sv w s (fst b) (snd b) (file_type f)
              (frontmatter (file_content f)) (file_path f)) ts st)) (fst (snd t))
       = Some (hashContent sv (snd (snd t)))"
proof (induction ts arbitrary: t rule: rev_induct)
  case Nil
  then show ?case by simp
next
  case (snoc x xs)
  obtain f i c where x: "x = (f, i, c)" by (cases x) auto
  show ?case
  proof (cases "t = x")
    case True
    then show ?thesis
      by (simp add: x processBox_stores_hash[OF assms])
  next
    case False
    with snoc.prems have t: "t \<in> set xs" and d: "distinct (map (\<lambda>t. fst (snd t)) xs)"
      and n: "i \<notin> (\<lambda>t. fst (snd t)) ` set xs" by (auto simp: x)
    from t n have "fst (snd t) \<noteq> i" by (metis imageI)
    with snoc.IH[OF d t] show ?thesis
      by (simp add: x processBox_other_hash)
  qed
qed

lemma reingest_unchanged:
  assumes "\<forall>x. md5 sv x \<noteq> []"
    and "distinct (map fst (concat (map file_boxes files)))"
  shows "fst (processFiles sv w (fst (processFiles sv w st files)) files)
     = fst (processFiles sv w st files)"
proof -
  let ?ts = "concat (map (\<lambda>f. map (Pair f) (file_boxes f)) files)"
  have m: "map (\<lambda>t. fst (snd t)) ?ts = map fst (concat (map file_boxes files))"
    by (induction files) (auto simp: comp_def)
  with assms(2) have d: "distinct (map (\<lambda>t. fst (snd t)) ?ts)" by simp
  have "\<forall>f \<in> set files. \<forall>b \<in> set (file_boxes f).
      getNodeHash (store (fst (processFiles sv w st files))) (fst b) = Some (hashContent sv (snd b))"
  proof (intro ballI)
    fix f b
    assume "f \<in> set files" "b \<in> set (file_boxes f)"
    then have "(f, b) \<in> set ?ts" by auto
    from tasks_store_hashes[OF assms(1) d this, of w st]
    show "getNodeHash (store (fst (processFiles sv w st files))) (fst b) = Some (hashContent sv (snd b))"
      by (simp add: processFiles_tasks)
  qed
  then show ?thesis by (rule processFiles_skip)
qed

text \<open>
  C6 amended. A box whose stored hash is the digest of its trimmed content leaves the
  state as it is: no node, no edge, no call of the embedder; if this holds for every
  box of every file, the loop over the files leaves the state as it is; and it does
  hold after the files have been processed once, when no two boxes of the corpus have
  the same id: then processing the unchanged files again changes nothing. (Nothing is
  said of phase 1 and of the weavers, which run again on every run.)
\<close>

theorem unchanged_box_is_skipped:
  "(getNodeHash (store st) i = Some (hashContent sv c) \<longrightarrow> processBox sv w st i c ty fm p = st)
   \<and> ((\<forall>f \<in> set files. \<forall>b \<in> set (file_boxes f).
          getNodeHash (store st) (fst b) = Some (hashContent sv (snd b)))
        \<longrightarrow> fst (processFiles sv w st files) = st)
   \<and> ((\<forall>x. md5 sv x \<noteq> []) \<and> distinct (map fst (concat (map file_boxes files)))
        \<longrightarrow> fst (processFiles sv w (fst (processFiles sv w st files)) files)
            = fst (processFiles sv w st files))"
  using processBox_skip[of st i sv c w ty fm p] processFiles_skip[of files st sv w]
    reingest_unchanged[of sv files w st]
  by blast

theorem unchanged_box_is_skipped_witness:
  "getNodeHash (store ingested_state) ''my-note''
     = Some (hashContent demo_services (file_content plain_file))
   \<and> processBox demo_services demo_weaver ingested_state ''my-note'' (file_content plain_file)
       ''document'' [] ''notes/My Note.md'' = ingested_state
   \<and> fst (processFiles demo_services demo_weaver ingested_state [plain_file]) = ingested_state
   \<and> (\<forall>x. md5 demo_services x \<noteq> [])
   \<and> distinct (map fst (concat (map file_boxes [plain_file])))
   \<and> fst (processFiles demo_services demo_weaver
           (fst (processFiles demo_services demo_weaver ingested_state [plain_file])) [plain_file])
      = fst (processFiles demo_services demo_weaver ingested_state [plain_file])"
  using unchanged_box_is_skipped[of ingested_state "''my-note''" demo_services
      "file_content plain_file" demo_weaver "''document''" "[]" "''notes/My Note.md''"
      "[plain_file]"]
    ingested_hash plain_boxes demo_md5_nonempty
  by simp

section \<open>Running the ingestion twice\<close>

lemma gate_insertNode:
  "isSuperNode (insertNode d n) t k = isSuperNode d t k"
  "sharesNeighbor (insertNode d n) a b = sharesNeighbor d a b"
  "edges (insertNode d n) = edges d"
  by (simp_all add: isSuperNode_def sharesNeighbor_def insertNode_def)

lemma edges_gated:
  "edges (if allowed (check d s t 50) then insertEdge d s t ty else d) =
     (if isSuperNode d t 50 \<and> \<not> sharesNeighbor d s t then edges d
      else if mk_edge s t ty \<in> set (edges d) then edges d
      else edges d @ [mk_edge s t ty])"
  by (simp add: check_def insertEdge_def)

lemma hub_super_more: "edges d = edges hub_db @ xs \<Longrightarrow> isSuperNode d ''T'' 50"
proof -
  assume e: "edges d = edges hub_db @ xs"
  have "filter (\<lambda>e. target e = ''T'' \<or> source e = ''T'') (edges hub_db) = edges hub_db"
    using hub_edges by (intro filter_True) blast
  then show ?thesis by (simp add: isSuperNode_def e hub_length)
qed

lemma hub_S_small:
  assumes "edges d = edges hub_db @ xs" and "length xs \<le> 2"
  shows "\<not> isSuperNode d ''S'' 50"
proof -
  have "filter (\<lambda>e. target e = ''S'' \<or> source e = ''S'') (edges hub_db) = [mk_edge ''S'' ''T'' ''CITES'']"
    by (simp add: hub_db_def mk_edge_def filter_map comp_def)
  moreover have "length (filter (\<lambda>e. target e = ''S'' \<or> source e = ''S'') xs) \<le> 2"
    using assms(2) length_filter_le[of _ xs] by (meson le_trans)
  ultimately show ?thesis by (simp add: isSuperNode_def assms(1))
qed

lemma hub_o_apart: "edges d = edges hub_db \<Longrightarrow> \<not> sharesNeighbor d ''o'' ''T''"
proof
  assume e: "edges d = edges hub_db" and "sharesNeighbor d ''o'' ''T''"
  then have "\<exists>e1 \<in> set (edges hub_db). \<exists>e2 \<in> set (edges hub_db). join_cond ''o'' ''T'' e1 e2"
    by (simp add: sharesNeighbor_def list_ex_iff)
  then obtain e1 e2 where e1: "e1 \<in> set (edges hub_db)" and "join_cond ''o'' ''T'' e1 e2"
    by blast
  then have "source e1 = ''o'' \<or> target e1 = ''o''" by (simp add: join_cond_def)
  with hub_without_o[OF e1] show False by simp
qed

lemma hub_o_joined:
  assumes "edges d = edges hub_db @ mk_edge ''o'' ''S'' ''CITES'' # xs"
  shows "sharesNeighbor d ''o'' ''T''"
proof -
  have j: "join_cond ''o'' ''T'' (mk_edge ''o'' ''S'' ''CITES'') (mk_edge ''S'' ''T'' ''CITES'')"
    by (simp add: join_cond_def mk_edge_def)
  have m1: "mk_edge ''o'' ''S'' ''CITES'' \<in> set (edges d)" by (simp add: assms)
  have m2: "mk_edge ''S'' ''T'' ''CITES'' \<in> set (edges d)" using hub_first by (simp add: assms)
  have "\<exists>e2 \<in> set (edges d). join_cond ''o'' ''T'' (mk_edge ''o'' ''S'' ''CITES'') e2"
    by (rule bexI[where x = "mk_edge ''S'' ''T'' ''CITES''"
          and P = "\<lambda>e2. join_cond ''o'' ''T'' (mk_edge ''o'' ''S'' ''CITES'') e2", OF j m2])
  then have "\<exists>e1 \<in> set (edges d). \<exists>e2 \<in> set (edges d). join_cond ''o'' ''T'' e1 e2"
    by (rule bexI[where x = "mk_edge ''o'' ''S'' ''CITES''"
          and P = "\<lambda>e1. \<exists>e2 \<in> set (edges d). join_cond ''o'' ''T'' e1 e2", OF _ m1])
  then show ?thesis by (simp add: sharesNeighbor_def list_ex_iff)
qed

lemma hub_new_edges:
  "mk_edge ''o'' t ty \<notin> set (edges hub_db)"
  using hub_without_o[of "mk_edge ''o'' t ty"] by (auto simp: mk_edge_def)

text \<open>One relationship of the directive \<open>o\<close>, in the three states of the two runs.\<close>

lemma relationship_T_refused:
  assumes "edges d = edges hub_db"
  shows "edges (ingestRelationship ''o'' \<lparr>rel_target = ''T'', rel_type = ty\<rparr> d) = edges hub_db"
  unfolding ingestRelationship_def edges_gated
  using hub_super_more[of d "[]"] hub_o_apart[OF assms] assms by simp

lemma relationship_S_inserted:
  assumes "edges d = edges hub_db"
  shows "edges (ingestRelationship ''o'' \<lparr>rel_target = ''S'', rel_type = ''CITES''\<rparr> d)
    = edges hub_db @ [mk_edge ''o'' ''S'' ''CITES'']"
  unfolding ingestRelationship_def edges_gated
  using hub_S_small[of d "[]"] hub_new_edges[of "''S''" "''CITES''"] assms by simp

lemma relationship_T_admitted:
  assumes "edges d = edges hub_db @ [mk_edge ''o'' ''S'' ''CITES'']"
  shows "edges (ingestRelationship ''o'' \<lparr>rel_target = ''T'', rel_type = ''IMPLEMENTS''\<rparr> d)
    = edges hub_db @ [mk_edge ''o'' ''S'' ''CITES'', mk_edge ''o'' ''T'' ''IMPLEMENTS'']"
  unfolding ingestRelationship_def edges_gated
  using hub_o_joined[OF assms] hub_new_edges[of "''T''" "''IMPLEMENTS''"] assms
  by (simp add: mk_edge_def)

lemma relationship_S_present:
  assumes "edges d = edges hub_db @ [mk_edge ''o'' ''S'' ''CITES'', e]"
  shows "edges (ingestRelationship ''o'' \<lparr>rel_target = ''S'', rel_type = ''CITES''\<rparr> d) = edges d"
  unfolding ingestRelationship_def edges_gated
  using assms by simp

lemma directive_first_run:
  "edges (ingestCDA hub_db [hub_entry]) = edges hub_db @ [mk_edge ''o'' ''S'' ''CITES'']"
proof -
  let ?d = "insertNode hub_db (directive_node hub_entry)"
  have "edges ?d = edges hub_db" by (rule gate_insertNode)
  from relationship_S_inserted[OF relationship_T_refused[OF this]]
  show ?thesis by (simp add: ingestCDA_def ingestEntry_def hub_entry_def)
qed

lemma directive_second_run:
  "edges (ingestCDA (ingestCDA hub_db [hub_entry]) [hub_entry])
     = edges hub_db @ [mk_edge ''o'' ''S'' ''CITES'', mk_edge ''o'' ''T'' ''IMPLEMENTS'']"
proof -
  let ?d = "insertNode (ingestCDA hub_db [hub_entry]) (directive_node hub_entry)"
  have e: "edges ?d = edges hub_db @ [mk_edge ''o'' ''S'' ''CITES'']"
    unfolding gate_insertNode by (rule directive_first_run)
  note t = relationship_T_admitted[OF e]
  from relationship_S_present[OF t] t
  show ?thesis by (simp add: ingestCDA_def ingestEntry_def hub_entry_def)
qed

text \<open>A box with one link, woven by \<open>twin_weaver\<close> when its stored hash differs.\<close>

lemma box_edges:
  assumes "getNodeHash (store st) i \<noteq> Some (hashContent sv c)"
    and "wikilink_targets twin_weaver c = [(t, ty)]"
  shows "edges (store (processBox sv twin_weaver st i c k fm p)) =
     (if isSuperNode (store st) t 50 \<and> \<not> sharesNeighbor (store st) i t then edges (store st)
      else if mk_edge i t ty \<in> set (edges (store st)) then edges (store st)
      else edges (store st) @ [mk_edge i t ty])"
proof -
  have t: "tag_targets twin_weaver c = []" and m: "metadata_targets twin_weaver c = []"
    by (simp_all add: twin_weaver_def)
  have "edges (weave twin_weaver d i c)
      = edges (if allowed (check d i t 50) then insertEdge d i t ty else d)" for d
    by (simp add: weave_def processTags_def processWikiLinks_def processMetadataTags_def
        safeInsertAll_def safeInsertEdge_def t m assms(2))
  with assms(1) show ?thesis
    unfolding edges_gated by (simp add: processBox_def Let_def gate_insertNode)
qed

lemma twin_slug: "file_slug (basename ''docs/o.md'') = ''o''" "file_slug (basename ''notes/o.md'') = ''o''"
  by (simp_all add: basename_def file_slug_def toLowerCase_def slug_char_def in_range_def
      lower_char_def)

lemma twin_boxes:
  "map file_boxes twin_files =
     [[(''o'', ''See [[T]] for the hub.'')], [(''o'', ''See [[S]] for the source.'')]]"
proof -
  have a: "\<not> has_locus_marker ''See [[T]] for the hub.''"
    and b: "\<not> has_locus_marker ''See [[S]] for the source.''"
    by (simp_all add: has_locus_marker_def marker_here_def locus_open_def)
  have "basename ''docs/o.md'' \<noteq> []" "basename ''notes/o.md'' \<noteq> []"
    by (simp_all add: basename_def)
  then show ?thesis
    using no_marker_no_match[OF a] no_marker_no_match[OF b] twin_slug
    by (simp add: twin_files_def file_boxes_def box_matches_def)
qed

lemma twin_run:
  "fst (processFiles sv w st twin_files) =
     processBox sv w (processBox sv w st ''o'' ''See [[T]] for the hub.'' ''document'' [] ''docs/o.md'')
       ''o'' ''See [[S]] for the source.'' ''document'' [] ''notes/o.md''"
proof -
  have f: "frontmatter ''See [[T]] for the hub.'' = []" "frontmatter ''See [[S]] for the source.'' = []"
    by (simp_all add: frontmatter_def)
  have "file_boxes (twin_files ! 0) = [(''o'', ''See [[T]] for the hub.'')]"
    and "file_boxes (twin_files ! 1) = [(''o'', ''See [[S]] for the source.'')]"
    using twin_boxes by (simp_all add: twin_files_def)
  then show ?thesis
    unfolding processFiles_fst
    by (simp add: twin_files_def processFile_boxes f)
qed

lemma twin_hashes:
  "hashContent demo_services ''See [[T]] for the hub.'' \<noteq> hashContent demo_services ''See [[S]] for the source.''"
  by (simp add: hashContent_def demo_services_def trim_def js_space_def)

lemma twin_first_run:
  fixes s1
  defines "s1 \<equiv> fst (processFiles demo_services twin_weaver hub_state twin_files)"
  shows "edges (store s1) = edges hub_db @ [mk_edge ''o'' ''S'' ''CITES'']"
    and "getNodeHash (store s1) ''o'' = Some (hashContent demo_services ''See [[S]] for the source.'')"
proof -
  let ?a = "processBox demo_services twin_weaver hub_state ''o'' ''See [[T]] for the hub.''
              ''document'' [] ''docs/o.md''"
  have s1: "s1 = processBox demo_services twin_weaver ?a ''o'' ''See [[S]] for the source.''
              ''document'' [] ''notes/o.md''"
    unfolding s1_def by (rule twin_run)
  have h0: "getNodeHash (store hub_state) ''o'' \<noteq> Some (hashContent demo_services ''See [[T]] for the hub.'')"
    by (simp add: hub_state_def hub_db_def getNodeHash_def)
  have e0: "edges (store hub_state) = edges hub_db" by (simp add: hub_state_def)
  have wa: "wikilink_targets twin_weaver ''See [[T]] for the hub.'' = [(''T'', ''CITES'')]"
    and wb: "wikilink_targets twin_weaver ''See [[S]] for the source.'' = [(''S'', ''CITES'')]"
    by (simp_all add: twin_weaver_def)
  have ea: "edges (store ?a) = edges hub_db"
    unfolding box_edges[OF h0 wa]
    using hub_super_more[of "store hub_state" "[]"] hub_o_apart[OF e0] e0 by simp
  have "getNodeHash (store ?a) ''o'' = Some (hashContent demo_services ''See [[T]] for the hub.'')"
    by (rule processBox_stores_hash[OF demo_md5_nonempty])
  with twin_hashes
  have ha: "getNodeHash (store ?a) ''o'' \<noteq> Some (hashContent demo_services ''See [[S]] for the source.'')"
    by simp
  show "edges (store s1) = edges hub_db @ [mk_edge ''o'' ''S'' ''CITES'']"
    unfolding s1 box_edges[OF ha wb]
    using hub_S_small[of "store ?a" "[]"] hub_new_edges[of "''S''" "''CITES''"] ea by simp
  show "getNodeHash (store s1) ''o'' = Some (hashContent demo_services ''See [[S]] for the source.'')"
    unfolding s1 by (rule processBox_stores_hash[OF demo_md5_nonempty])
qed

lemma twin_second_run:
  fixes s1 s2
  defines "s1 \<equiv> fst (processFiles demo_services twin_weaver hub_state twin_files)"
  defines "s2 \<equiv> fst (processFiles demo_services twin_weaver s1 twin_files)"
  shows "edges (store s2) = edges hub_db @ [mk_edge ''o'' ''S'' ''CITES'', mk_edge ''o'' ''T'' ''CITES'']"
proof -
  let ?a = "processBox demo_services twin_weaver s1 ''o'' ''See [[T]] for the hub.''
              ''document'' [] ''docs/o.md''"
  have s2: "s2 = processBox demo_services twin_weaver ?a ''o'' ''See [[S]] for the source.''
              ''document'' [] ''notes/o.md''"
    unfolding s2_def by (rule twin_run)
  note first = twin_first_run[folded s1_def]
  from first(2) twin_hashes
  have h1: "getNodeHash (store s1) ''o'' \<noteq> Some (hashContent demo_services ''See [[T]] for the hub.'')"
    by simp
  have wa: "wikilink_targets twin_weaver ''See [[T]] for the hub.'' = [(''T'', ''CITES'')]"
    and wb: "wikilink_targets twin_weaver ''See [[S]] for the source.'' = [(''S'', ''CITES'')]"
    by (simp_all add: twin_weaver_def)
  have ea: "edges (store ?a) = edges hub_db @ [mk_edge ''o'' ''S'' ''CITES'', mk_edge ''o'' ''T'' ''CITES'']"
    unfolding box_edges[OF h1 wa]
    using hub_o_joined[of "store s1" "[]"] hub_new_edges[of "''T''" "''CITES''"] first(1)
    by (simp add: mk_edge_def)
  have "getNodeHash (store ?a) ''o'' = Some (hashContent demo_services ''See [[T]] for the hub.'')"
    by (rule processBox_stores_hash[OF demo_md5_nonempty])
  with twin_hashes
  have ha: "getNodeHash (store ?a) ''o'' \<noteq> Some (hashContent demo_services ''See [[S]] for the source.'')"
    by simp
  show ?thesis
    unfolding s2 box_edges[OF ha wb] using ea by simp
qed

text \<open>
  C6 as stated fails in its second half. Phase 1 has no change detection: \<open>ingestCDA\<close>
  asks the gate again on every run, and on \<open>hub_db\<close> the first run refuses the edge from
  the directive \<open>o\<close> to the hub \<open>T\<close> and inserts the one to \<open>S\<close>, after which \<open>o\<close> and \<open>T\<close>
  share the neighbour \<open>S\<close> and the second run inserts the edge to \<open>T\<close>. In phase 2 two
  files without markers and with the same name, \<open>docs/o.md\<close> and \<open>notes/o.md\<close>, are boxes
  of the same id \<open>o\<close>: each overwrites the hash of the other, both are processed again
  on every run, and the second run inserts the edge to \<open>T\<close> that the first one was
  refused. The corpus is the same in both runs.
\<close>

theorem rerun_adds_edge:
  "edges (ingestCDA hub_db [hub_entry]) = edges hub_db @ [mk_edge ''o'' ''S'' ''CITES'']
   \<and> edges (ingestCDA (ingestCDA hub_db [hub_entry]) [hub_entry])
       = edges hub_db @ [mk_edge ''o'' ''S'' ''CITES'', mk_edge ''o'' ''T'' ''IMPLEMENTS'']
   \<and> length (edges hub_db) = 51
   \<and> map fst (concat (map file_boxes twin_files)) = [''o'', ''o'']
   \<and> edges (store (fst (processFiles demo_services twin_weaver hub_state twin_files)))
       = edges hub_db @ [mk_edge ''o'' ''S'' ''CITES'']
   \<and> edges (store (fst (processFiles demo_services twin_weaver
         (fst (processFiles demo_services twin_weaver hub_state twin_files)) twin_files)))
       = edges hub_db @ [mk_edge ''o'' ''S'' ''CITES'', mk_edge ''o'' ''T'' ''CITES'']"
  using directive_first_run directive_second_run twin_first_run(1) twin_second_run hub_length
  by (simp add: twin_boxes)

end
